theory Spec2Isabelle
  imports Complex_Main
begin

section \<open>Numbers of the host language\<close>

text \<open>
  \<^verbatim>\<open>typer.ts\<close> handles values of the host language's type \<^verbatim>\<open>number\<close> in three places:
  the bounds of a curly-bracket multiplier, the value \<^verbatim>\<open>Number(entity.value)\<close> of a
  keyword, and the \<^verbatim>\<open>literal\<close> of a numeric literal type. A \<^verbatim>\<open>number\<close> is NaN, one of
  the two infinities, or a finite value; every finite value is a rational. The two zeros
  are one value here: \<^verbatim>\<open>===\<close>, \<^verbatim>\<open>></\<close> and \<^verbatim>\<open>String\<close> do not tell them apart, and
  the program uses nothing else on numbers.
\<close>

datatype number = NaN | PosInfinity | NegInfinity | Finite rat

text \<open>\<^verbatim>\<open>a === b\<close> on numbers: NaN is not equal to anything, itself included.\<close>

definition strict_eq :: "number \<Rightarrow> number \<Rightarrow> bool" where
  "strict_eq a b = (a = b \<and> a \<noteq> NaN)"

text \<open>\<^verbatim>\<open>a > b\<close> on numbers: false as soon as one side is NaN.\<close>

fun js_gt :: "number \<Rightarrow> number \<Rightarrow> bool" where
  "js_gt NaN b = False"
| "js_gt a NaN = False"
| "js_gt PosInfinity b = (b \<noteq> PosInfinity)"
| "js_gt NegInfinity b = False"
| "js_gt (Finite x) PosInfinity = False"
| "js_gt (Finite x) NegInfinity = True"
| "js_gt (Finite x) (Finite y) = (y < x)"

section \<open>The entity tree (what \<^verbatim>\<open>./parser\<close> exports)\<close>

text \<open>
  \<^verbatim>\<open>MultiplierType\<close> is a union tagged by \<^verbatim>\<open>sign\<close>; only the curly-bracket multiplier
  carries \<^verbatim>\<open>min\<close> and \<^verbatim>\<open>max\<close>.
\<close>

datatype MultiplierType =
    Asterisk
  | PlusSign
  | QuestionMark
  | CurlyBracet number number
  | HashMark
  | ExclamationPoint

datatype Combinator = Juxtaposition | DoubleAmpersand | DoubleBar | SingleBar

text \<open>
  An entity is an object, and \<^verbatim>\<open>entities.indexOf(x)\<close> looks an object up by identity, not
  by content. So an element of an entity array is a pair of the object's identity (a
  reference) and its content; two elements with the same reference are the same object.
  \<^verbatim>\<open>EntityType\<close> is tagged by \<^verbatim>\<open>entity\<close> (Component, Combinator, Function) and a
  component by \<^verbatim>\<open>component\<close> (Keyword, DataType, Group). The \<^verbatim>\<open>multiplier\<close> field is
  \<^verbatim>\<open>null\<close> (\<open>None\<close>) when the entity has none.
\<close>

type_synonym ref = nat

datatype EntityType =
    Keyword string "MultiplierType option"
  | DataType string "MultiplierType option"
  | Group "(ref \<times> EntityType) list" "MultiplierType option"
  | ICombinator Combinator
  | IFunction "MultiplierType option"

type_synonym entities = "(ref \<times> EntityType) list"

fun multiplier :: "EntityType \<Rightarrow> MultiplierType option" where
  "multiplier (Keyword v m) = m"
| "multiplier (DataType v m) = m"
| "multiplier (Group es m) = m"
| "multiplier (ICombinator c) = None"
| "multiplier (IFunction m) = m"

fun isFunction :: "EntityType \<Rightarrow> bool" where
  "isFunction (IFunction m) = True"
| "isFunction entity = False"

fun isComponent :: "EntityType \<Rightarrow> bool" where
  "isComponent (Keyword v m) = True"
| "isComponent (DataType v m) = True"
| "isComponent (Group inner m) = True"
| "isComponent entity = False"

fun isCombinator :: "EntityType \<Rightarrow> bool" where
  "isCombinator (ICombinator c) = True"
| "isCombinator entity = False"

section \<open>Type descriptors and the insertion functions\<close>

text \<open>
  \<^verbatim>\<open>TypeType\<close> with its default parameter: \<^verbatim>\<open>IBasic | IStringLiteral | INumericLiteral | IDataType\<close>.
  \<^verbatim>\<open>Type.Alias\<close> is no member of it, and \<^verbatim>\<open>addType\<close> has no case for it.
\<close>

datatype TypeType =
    Type_DataType string
  | Type_Length
  | Type_StringLiteral string
  | Type_NumericLiteral number
  | Type_String
  | Type_Number

definition addLength :: "TypeType list \<Rightarrow> TypeType list" where
  "addLength types =
     (if list_all (\<lambda>t. t \<noteq> Type_Length) types then types @ [Type_Length] else types)"

definition addString :: "TypeType list \<Rightarrow> TypeType list" where
  "addString types =
     (if list_all (\<lambda>t. t \<noteq> Type_String) types then types @ [Type_String] else types)"

definition addNumber :: "TypeType list \<Rightarrow> TypeType list" where
  "addNumber types =
     (if list_all (\<lambda>t. t \<noteq> Type_Number) types then types @ [Type_Number] else types)"

definition addStringLiteral :: "TypeType list \<Rightarrow> string \<Rightarrow> TypeType list" where
  "addStringLiteral types literal =
     (if list_all (\<lambda>t. t \<noteq> Type_StringLiteral literal) types
      then types @ [Type_StringLiteral literal] else types)"

text \<open>The numeric literal is compared with \<^verbatim>\<open>===\<close>.\<close>

fun is_numeric_literal :: "number \<Rightarrow> TypeType \<Rightarrow> bool" where
  "is_numeric_literal literal (Type_NumericLiteral l) = strict_eq l literal"
| "is_numeric_literal literal t = False"

definition addNumericLiteral :: "TypeType list \<Rightarrow> number \<Rightarrow> TypeType list" where
  "addNumericLiteral types literal =
     (if list_all (\<lambda>t. \<not> is_numeric_literal literal t) types
      then types @ [Type_NumericLiteral literal] else types)"

definition addDataType :: "TypeType list \<Rightarrow> string \<Rightarrow> TypeType list" where
  "addDataType types name =
     (if list_all (\<lambda>t. t \<noteq> Type_DataType name) types
      then types @ [Type_DataType name] else types)"

fun addType :: "TypeType list \<Rightarrow> TypeType \<Rightarrow> TypeType list" where
  "addType types Type_Length = addLength types"
| "addType types Type_String = addString types"
| "addType types Type_Number = addNumber types"
| "addType types (Type_StringLiteral literal) = addStringLiteral types literal"
| "addType types (Type_NumericLiteral literal) = addNumericLiteral types literal"
| "addType types (Type_DataType name) = addDataType types name"

text \<open>
  An array without two equal entries, numeric literals of NaN apart (\<^verbatim>\<open>===\<close> never
  finds a NaN that is already there).
\<close>

definition no_duplicates :: "TypeType list \<Rightarrow> bool" where
  "no_duplicates ts = distinct (filter (\<lambda>t. t \<noteq> Type_NumericLiteral NaN) ts)"

section \<open>Predicates on multipliers, combinators and entities\<close>

text \<open>
  The type guards \<^verbatim>\<open>isFunction\<close>, \<^verbatim>\<open>isComponent\<close>, \<^verbatim>\<open>isCombinator\<close> (above) and
  \<^verbatim>\<open>isCurlyBracetMultiplier\<close> test the tag; where the source branches on them, the
  functions below match on the constructor.
\<close>

fun isCurlyBracetMultiplier :: "MultiplierType \<Rightarrow> bool" where
  "isCurlyBracetMultiplier (CurlyBracet mn mx) = True"
| "isCurlyBracetMultiplier m = False"

fun isMultiplied :: "MultiplierType \<Rightarrow> bool" where
  "isMultiplied (CurlyBracet mn mx) = (js_gt mn (Finite 1) \<or> js_gt mx (Finite 1))"
| "isMultiplied Asterisk = True"
| "isMultiplied PlusSign = True"
| "isMultiplied HashMark = True"
| "isMultiplied ExclamationPoint = True"
| "isMultiplied QuestionMark = False"

text \<open>\<^verbatim>\<open>entity.multiplier && isMultiplied(entity.multiplier)\<close>\<close>

fun multiplied :: "MultiplierType option \<Rightarrow> bool" where
  "multiplied None = False"
| "multiplied (Some m) = isMultiplied m"

fun isMandatoryCombinator :: "Combinator \<Rightarrow> bool" where
  "isMandatoryCombinator c = (c = DoubleAmpersand \<or> c = Juxtaposition)"

text \<open>
  \<^verbatim>\<open>isOptionalEntity\<close>: \<^verbatim>\<open>entity.multiplier &&\<close> followed by the test on the multiplier,
  \<open>isOptionalMultiplier\<close> here. A bounded range passes it when \<^verbatim>\<open>min > 0\<close>.
\<close>

fun isOptionalMultiplier :: "MultiplierType \<Rightarrow> bool" where
  "isOptionalMultiplier (CurlyBracet mn mx) = js_gt mn (Finite 0)"
| "isOptionalMultiplier Asterisk = True"
| "isOptionalMultiplier QuestionMark = True"
| "isOptionalMultiplier m = False"

fun isOptionalEntity :: "EntityType \<Rightarrow> bool" where
  "isOptionalEntity entity =
     (case multiplier entity of None \<Rightarrow> False | Some m \<Rightarrow> isOptionalMultiplier m)"

section \<open>The inclusion gate\<close>

text \<open>\<^verbatim>\<open>entities.indexOf(x)\<close>: the first index holding the object, or -1.\<close>

fun indexOf :: "entities \<Rightarrow> ref \<Rightarrow> int" where
  "indexOf [] r = -1"
| "indexOf (e # es) r =
     (if fst e = r then 0 else (let i = indexOf es r in if i < 0 then -1 else i + 1))"

text \<open>\<^verbatim>\<open>entities[i]\<close>: \<^verbatim>\<open>undefined\<close> (\<open>None\<close>) outside the array.\<close>

definition at_index :: "entities \<Rightarrow> int \<Rightarrow> (ref \<times> EntityType) option" where
  "at_index es i = (if 0 \<le> i \<and> i < int (length es) then Some (es ! nat i) else None)"

definition previousEntity :: "entities \<Rightarrow> ref \<Rightarrow> (ref \<times> EntityType) option" where
  "previousEntity es currentEntity = at_index es (indexOf es currentEntity - 1)"

definition nextEntity :: "entities \<Rightarrow> ref \<Rightarrow> (ref \<times> EntityType) option" where
  "nextEntity es currentEntity = at_index es (indexOf es currentEntity + 1)"

text \<open>
  The first loop of \<^verbatim>\<open>shouldIncludeComponent\<close>: \<open>left_scan es n\<close> runs it for
  \<open>i = n - 1\<close> down to \<open>0\<close>. \<open>False\<close> is the loop's \<^verbatim>\<open>return false\<close>; \<open>True\<close> is
  leaving the loop, at its end or by \<^verbatim>\<open>break\<close>.
\<close>

fun left_scan :: "entities \<Rightarrow> nat \<Rightarrow> bool" where
  "left_scan es 0 = True"
| "left_scan es (Suc i) =
     (case at_index es (int i) of
        Some (r, ICombinator c) \<Rightarrow>
          if isMandatoryCombinator c then
            (case previousEntity es r of
               Some previous \<Rightarrow>
                 if \<not> isOptionalEntity (snd previous) then False else left_scan es i
             | None \<Rightarrow> left_scan es i)
          else True
      | _ \<Rightarrow> left_scan es i)"

text \<open>The second loop: \<open>right_scan es i\<close> runs it from index \<open>i\<close> up to the end.\<close>

function right_scan :: "entities \<Rightarrow> nat \<Rightarrow> bool" where
  "right_scan es i =
     (if i < length es then
        (case at_index es (int i) of
           Some (r, ICombinator c) \<Rightarrow>
             if isMandatoryCombinator c then
               (case nextEntity es r of
                  Some next \<Rightarrow>
                    if \<not> isOptionalEntity (snd next) then False else right_scan es (Suc i)
                | None \<Rightarrow> right_scan es (Suc i))
             else True
         | _ \<Rightarrow> right_scan es (Suc i))
      else True)"
  by pat_completeness auto
termination
  by (relation "measure (\<lambda>(es, i). length es - i)") auto

declare right_scan.simps [simp del]

definition shouldIncludeComponent :: "entities \<Rightarrow> ref \<Rightarrow> bool" where
  "shouldIncludeComponent es component =
     (if \<not> left_scan es (nat (indexOf es component)) then False
      else if \<not> right_scan es (nat (indexOf es component + 1)) then False
      else True)"

section \<open>Data-type references\<close>

text \<open>\<^verbatim>\<open>entity.value.slice(1, -1)\<close>: the value without its first and last character.\<close>

definition slice_1_m1 :: "string \<Rightarrow> string" where
  "slice_1_m1 s = butlast (tl s)"

text \<open>
  \<^verbatim>\<open>/'([^']+)'/.exec(value)\<close>, its first group: the leftmost quote that is followed by
  one or more characters other than a quote and then a quote; the group is that run.
\<close>

fun exec_quoted :: "string \<Rightarrow> string option" where
  "exec_quoted [] = None"
| "exec_quoted (c # cs) =
     (if c = CHR 0x27 \<and> takeWhile (\<lambda>d. d \<noteq> CHR 0x27) cs \<noteq> []
         \<and> dropWhile (\<lambda>d. d \<noteq> CHR 0x27) cs \<noteq> []
      then Some (takeWhile (\<lambda>d. d \<noteq> CHR 0x27) cs)
      else exec_quoted cs)"

section \<open>What the reducer reads from outside \<^verbatim>\<open>typer.ts\<close>\<close>

text \<open>
  The three \<^verbatim>\<open>mdn-data\<close> tables, the parser, the two built-in conversions and the
  prototype of plain objects are not part of \<^verbatim>\<open>typer.ts\<close>; the model takes them as
  parameters:
  \<^item> \<open>properties\<close>: the own keys of the table \<^verbatim>\<open>properties\<close>, each with its
    \<^verbatim>\<open>.syntax\<close>;
  \<^item> \<open>parse\<close>: the default export of \<^verbatim>\<open>./parser\<close>, on a string or on \<^verbatim>\<open>undefined\<close>
    (\<open>None\<close>);
  \<^item> \<open>cssTypes\<close>: \<^verbatim>\<open>Object.keys(cssTypes)\<close>, in their order;
  \<^item> \<open>syntaxes\<close>: the names with \<^verbatim>\<open>name in syntaxes\<close>;
  \<^item> \<open>inherited\<close>: the names a plain object inherits from \<^verbatim>\<open>Object.prototype\<close>
    (\<^verbatim>\<open>toString\<close>, \<^verbatim>\<open>constructor\<close>, ...). The operator \<^verbatim>\<open>in\<close> finds them in every
    table, and what the table then holds under the name is an inherited function or
    object, which has neither a \<^verbatim>\<open>syntax\<close> nor a \<^verbatim>\<open>type\<close>;
  \<^item> \<open>js_Number\<close>, \<open>js_String\<close>: \<^verbatim>\<open>Number(s)\<close> on a string and \<^verbatim>\<open>String(n)\<close> on a number.
\<close>

record env =
  properties :: "(string \<times> string) list"
  parse :: "string option \<Rightarrow> entities"
  cssTypes :: "string list"
  syntaxes :: "string set"
  inherited :: "string list"
  js_Number :: "string \<Rightarrow> number"
  js_String :: "number \<Rightarrow> string"

text \<open>
  \<^verbatim>\<open>name in properties\<close>, and \<^verbatim>\<open>properties[name].syntax\<close>: the syntax of an own key,
  \<^verbatim>\<open>undefined\<close> (\<open>None\<close>) for a name that is only inherited.
\<close>

definition in_properties :: "env \<Rightarrow> string \<Rightarrow> bool" where
  "in_properties e name = (map_of (properties e) name \<noteq> None \<or> name \<in> set (inherited e))"

definition syntax_of :: "env \<Rightarrow> string \<Rightarrow> string option" where
  "syntax_of e name = map_of (properties e) name"

section \<open>The scalar-type catalog\<close>

text \<open>The body of the \<^verbatim>\<open>reduce\<close> callback, and the catalog it builds from \<open>{}\<close>.\<close>

definition basicDataTypes_step ::
  "env \<Rightarrow> (string \<rightharpoonup> TypeType) \<Rightarrow> string \<Rightarrow> (string \<rightharpoonup> TypeType)" where
  "basicDataTypes_step e dataTypes name =
     (if name = ''number'' \<or> name = ''integer'' then dataTypes(name \<mapsto> Type_Number)
      else if name = ''length'' then dataTypes(name \<mapsto> Type_Length)
      else if name \<notin> syntaxes e then dataTypes(name \<mapsto> Type_String)
      else dataTypes)"

definition basicDataTypes :: "env \<Rightarrow> (string \<rightharpoonup> TypeType)" where
  "basicDataTypes e =
     foldl (basicDataTypes_step e) Map.empty (cssTypes e @ [''hex-color''])"

text \<open>
  \<^verbatim>\<open>value in basicDataTypes\<close>: the catalog is a plain object (it starts as \<open>{}\<close>), so
  the inherited names are found in it as well.
\<close>

definition in_basicDataTypes :: "env \<Rightarrow> string \<Rightarrow> bool" where
  "in_basicDataTypes e v = (basicDataTypes e v \<noteq> None \<or> v \<in> set (inherited e))"

section \<open>The reducer\<close>

text \<open>
  What the variable \<^verbatim>\<open>types\<close> holds, and how a call of \<^verbatim>\<open>typing\<close> ends: with an array
  of type descriptors, with \<^verbatim>\<open>undefined\<close>, or by throwing a TypeError.
\<close>

datatype outcome = Types "TypeType list" | Undefined | TypeError

text \<open>
  An insertion function called on \<^verbatim>\<open>types\<close>: each of them starts with
  \<^verbatim>\<open>types.every(...)\<close>, which throws when \<^verbatim>\<open>types\<close> is \<^verbatim>\<open>undefined\<close>.
\<close>

fun add_with :: "(TypeType list \<Rightarrow> TypeType list) \<Rightarrow> outcome \<Rightarrow> outcome" where
  "add_with add (Types types) = Types (add types)"
| "add_with add Undefined = TypeError"
| "add_with add TypeError = TypeError"

text \<open>
  \<^verbatim>\<open>addType(types, basicDataTypes[value])\<close>: with an entry of the catalog it inserts the
  entry; with an inherited function or object (\<open>None\<close>), whose \<^verbatim>\<open>type\<close> is
  \<^verbatim>\<open>undefined\<close>, no case of the \<^verbatim>\<open>switch\<close> matches and \<^verbatim>\<open>addType\<close> returns
  \<^verbatim>\<open>undefined\<close>, whatever \<^verbatim>\<open>types\<close> is.
\<close>

fun addType_entry :: "outcome \<Rightarrow> TypeType option \<Rightarrow> outcome" where
  "addType_entry types (Some basic) = add_with (\<lambda>ts. addType ts basic) types"
| "addType_entry types None = Undefined"

text \<open>\<^verbatim>\<open>for (const type of ts) { types = addType(types, type); }\<close> on arrays.\<close>

definition addTypes :: "TypeType list \<Rightarrow> TypeType list \<Rightarrow> TypeType list" where
  "addTypes types ts = foldl addType types ts"

text \<open>
  \<^verbatim>\<open>for (const type of typing(...)) { types = addType(types, type); }\<close>, given how the
  call of \<^verbatim>\<open>typing\<close> ended: a TypeError of the call goes on up, \<^verbatim>\<open>undefined\<close> is not
  iterable, an empty array leaves \<^verbatim>\<open>types\<close> as it is (also when it is \<^verbatim>\<open>undefined\<close>),
  and the first element of a non-empty one is inserted into \<^verbatim>\<open>types\<close>.
\<close>

fun add_result :: "outcome \<Rightarrow> outcome \<Rightarrow> outcome" where
  "add_result types TypeError = TypeError"
| "add_result types Undefined = TypeError"
| "add_result types (Types []) = types"
| "add_result types (Types (t # ts)) = add_with (\<lambda>a. addTypes a (t # ts)) types"

text \<open>
  The part the group and the known quoted property share: \<^verbatim>\<open>addString\<close> when the
  entity is multiplied, then the recursive call (\<open>None\<close> when it does not return) and
  the loop over its result. A TypeError of \<^verbatim>\<open>addString\<close> comes before the call.
\<close>

definition add_typing ::
  "(entities \<Rightarrow> outcome option) \<Rightarrow> entities \<Rightarrow> bool \<Rightarrow> outcome \<Rightarrow> outcome option" where
  "add_typing recurse inner fallback types =
     (if (if fallback then add_with addString types else types) = TypeError then Some TypeError
      else (case recurse inner of
              None \<Rightarrow> None
            | Some result \<Rightarrow>
                Some (add_result (if fallback then add_with addString types else types) result)))"

text \<open>
  The body of the loop of \<^verbatim>\<open>typing\<close> for one entity. \<open>recurse\<close> is the recursive call
  of \<^verbatim>\<open>typing\<close>; \<open>es\<close> is the array \<^verbatim>\<open>entities\<close> the gate searches.
\<close>

fun typing_body ::
  "env \<Rightarrow> (entities \<Rightarrow> outcome option) \<Rightarrow> entities \<Rightarrow> outcome
     \<Rightarrow> ref \<times> EntityType \<Rightarrow> outcome option" where
  "typing_body e recurse es types (r, Keyword v m) =
     (if shouldIncludeComponent es r then
        (if js_String e (js_Number e v) = v
         then Some (add_with (\<lambda>ts. addNumericLiteral ts (js_Number e v)) types)
         else Some (add_with (\<lambda>ts. addStringLiteral ts v) types))
      else Some types)"
| "typing_body e recurse es types (r, DataType v m) =
     (if shouldIncludeComponent es r then
        (case exec_quoted (slice_1_m1 v) of
           Some name \<Rightarrow>
             (if in_properties e name
              then add_typing recurse (parse e (syntax_of e name)) (multiplied m) types
              else Some (add_with addString types))
         | None \<Rightarrow>
             (if in_basicDataTypes e (slice_1_m1 v)
              then Some (addType_entry types (basicDataTypes e (slice_1_m1 v)))
              else Some (add_with (\<lambda>ts. addDataType ts (slice_1_m1 v)) types)))
      else Some types)"
| "typing_body e recurse es types (r, Group inner m) =
     (if shouldIncludeComponent es r then add_typing recurse inner (multiplied m) types
      else Some types)"
| "typing_body e recurse es types (r, ICombinator c) =
     (if c = DoubleBar \<or> isMandatoryCombinator c then Some (add_with addString types)
      else Some types)"
| "typing_body e recurse es types (r, IFunction m) = Some (add_with addString types)"

text \<open>
  The \<^verbatim>\<open>for ... of\<close> loop over the entities: \<^verbatim>\<open>types\<close> is threaded through the
  elements in order; a body that does not return (\<open>None\<close>) or throws ends the loop.
\<close>

fun for_of ::
  "(outcome \<Rightarrow> 'a \<Rightarrow> outcome option) \<Rightarrow> 'a list \<Rightarrow> outcome \<Rightarrow> outcome option" where
  "for_of body [] types = Some types"
| "for_of body (x # xs) types =
     (case body types x of
        None \<Rightarrow> None
      | Some TypeError \<Rightarrow> Some TypeError
      | Some types' \<Rightarrow> for_of body xs types')"

text \<open>
  \<^verbatim>\<open>typing\<close> calls itself for a group and for a referenced property, and nothing in it
  stops a cycle of property references. The model counts the nested calls: \<open>typing e n es\<close>
  is \<open>None\<close> when the call would need more than \<open>n\<close> nested activations of
  \<^verbatim>\<open>typing\<close> (the outermost included), and otherwise how the call ends.
\<close>

fun typing :: "env \<Rightarrow> nat \<Rightarrow> entities \<Rightarrow> outcome option" where
  "typing e 0 es = None"
| "typing e (Suc n) es = for_of (typing_body e (\<lambda>es'. typing e n es') es) es (Types [])"

section \<open>Nesting depth and property references of a tree\<close>

text \<open>
  \<open>nesting es\<close> is the number of groups nested in each other in \<open>es\<close> (0 when no
  entity of \<open>es\<close> is a group): \<^verbatim>\<open>typing\<close> on \<open>es\<close> stacks \<open>Suc (nesting es)\<close> of its
  own activations for the groups alone. \<open>references es\<close> are the names that the data
  types of \<open>es\<close>, at any depth, quote; \<^verbatim>\<open>typing\<close> follows those that \<^verbatim>\<open>in\<close> finds in
  \<^verbatim>\<open>properties\<close>. \<open>bare_names es\<close> are the names of the data types that quote nothing.
\<close>

fun nesting_entity :: "EntityType \<Rightarrow> nat" and nesting :: "entities \<Rightarrow> nat" where
  "nesting_entity (Group inner m) = Suc (nesting inner)"
| "nesting_entity (Keyword v m) = 0"
| "nesting_entity (DataType v m) = 0"
| "nesting_entity (ICombinator c) = 0"
| "nesting_entity (IFunction m) = 0"
| "nesting [] = 0"
| "nesting (x # es) = max (nesting_entity (snd x)) (nesting es)"

fun references_entity :: "EntityType \<Rightarrow> string set" and references :: "entities \<Rightarrow> string set" where
  "references_entity (DataType v m) =
     (case exec_quoted (slice_1_m1 v) of Some name \<Rightarrow> {name} | None \<Rightarrow> {})"
| "references_entity (Group inner m) = references inner"
| "references_entity (Keyword v m) = {}"
| "references_entity (ICombinator c) = {}"
| "references_entity (IFunction m) = {}"
| "references [] = {}"
| "references (x # es) = references_entity (snd x) \<union> references es"

fun bare_names_entity :: "EntityType \<Rightarrow> string set" and bare_names :: "entities \<Rightarrow> string set" where
  "bare_names_entity (DataType v m) =
     (case exec_quoted (slice_1_m1 v) of Some name \<Rightarrow> {} | None \<Rightarrow> {slice_1_m1 v})"
| "bare_names_entity (Group inner m) = bare_names inner"
| "bare_names_entity (Keyword v m) = {}"
| "bare_names_entity (ICombinator c) = {}"
| "bare_names_entity (IFunction m) = {}"
| "bare_names [] = {}"
| "bare_names (x # es) = bare_names_entity (snd x) \<union> bare_names es"

text \<open>
  The grammar \<^verbatim>\<open>typing\<close> turns to for a quoted name, and the properties a tree reaches
  through quoted names: those it quotes itself and those the grammars of reached
  properties quote. The tree's own reference graph has an edge \<open>(q, p)\<close> when the grammar
  of a reached property \<open>p\<close> quotes the property \<open>q\<close>.
\<close>

definition grammar :: "env \<Rightarrow> string \<Rightarrow> entities" where
  "grammar e name = parse e (syntax_of e name)"

inductive_set reached :: "env \<Rightarrow> entities \<Rightarrow> string set" for e :: env and es :: entities where
  quoted: "q \<in> references es \<Longrightarrow> in_properties e q \<Longrightarrow> q \<in> reached e es"
| further: "p \<in> reached e es \<Longrightarrow> q \<in> references (grammar e p) \<Longrightarrow> in_properties e q
     \<Longrightarrow> q \<in> reached e es"

definition reference_graph :: "env \<Rightarrow> entities \<Rightarrow> (string \<times> string) set" where
  "reference_graph e es =
     {(q, p). p \<in> reached e es \<and> in_properties e q \<and> q \<in> references (grammar e p)}"

text \<open>
  A name that \<^verbatim>\<open>in\<close> finds in a table although the table has no entry of its own
  for it, and a tree all of whose data-type names, quoted or bare, are free of such
  names.
\<close>

definition inherited_property :: "env \<Rightarrow> string \<Rightarrow> bool" where
  "inherited_property e q = (q \<in> set (inherited e) \<and> map_of (properties e) q = None)"

definition inherited_data_type :: "env \<Rightarrow> string \<Rightarrow> bool" where
  "inherited_data_type e v = (v \<in> set (inherited e) \<and> basicDataTypes e v = None)"

definition own_names :: "env \<Rightarrow> entities \<Rightarrow> bool" where
  "own_names e es =
     ((\<forall>q\<in>references es. \<not> inherited_property e q)
      \<and> (\<forall>v\<in>bare_names es. \<not> inherited_data_type e v))"

section \<open>A sample environment for evaluation\<close>

text \<open>
  Concrete values for the parameters, used to run the reducer on concrete inputs.
  \<open>sample_Number\<close> and \<open>sample_String\<close> are the two built-in conversions on a
  fragment: \<^verbatim>\<open>Number\<close> on the empty string (0), on an optionally signed run of decimal
  digits, on \<^verbatim>\<open>Infinity\<close> with an optional sign, and on a string that starts with a
  letter other than \<^verbatim>\<open>I\<close> (NaN); \<^verbatim>\<open>String\<close> on NaN, on the infinities and on an
  integer below \<open>10\<^sup>2\<^sup>1\<close> in absolute value. They are evaluated on such inputs only.
\<close>

fun digit_value :: "char \<Rightarrow> nat option" where
  "digit_value c =
     (if 48 \<le> (of_char c :: nat) \<and> (of_char c :: nat) \<le> 57
      then Some ((of_char c :: nat) - 48) else None)"

fun decimal_value :: "string \<Rightarrow> nat \<Rightarrow> nat option" where
  "decimal_value [] acc = Some acc"
| "decimal_value (c # cs) acc =
     (case digit_value c of None \<Rightarrow> None | Some d \<Rightarrow> decimal_value cs (10 * acc + d))"

definition unsigned_Number :: "string \<Rightarrow> number" where
  "unsigned_Number s =
     (if s = ''Infinity'' then PosInfinity
      else if s = [] then NaN
      else (case decimal_value s 0 of None \<Rightarrow> NaN | Some n \<Rightarrow> Finite (of_nat n)))"

fun negate :: "number \<Rightarrow> number" where
  "negate NaN = NaN"
| "negate PosInfinity = NegInfinity"
| "negate NegInfinity = PosInfinity"
| "negate (Finite x) = Finite (- x)"

fun sample_Number :: "string \<Rightarrow> number" where
  "sample_Number [] = Finite 0"
| "sample_Number (c # cs) =
     (if c = CHR ''+'' then unsigned_Number cs
      else if c = CHR ''-'' then negate (unsigned_Number cs)
      else unsigned_Number (c # cs))"

function decimal_digits :: "nat \<Rightarrow> string" where
  "decimal_digits n =
     (if n < 10 then [char_of (48 + n)]
      else decimal_digits (n div 10) @ [char_of (48 + n mod 10)])"
  by pat_completeness auto
termination
  by (relation "measure (\<lambda>n. n)") auto

declare decimal_digits.simps [simp del]

fun sample_String :: "number \<Rightarrow> string" where
  "sample_String NaN = ''NaN''"
| "sample_String PosInfinity = ''Infinity''"
| "sample_String NegInfinity = ''-Infinity''"
| "sample_String (Finite x) =
     (if x < 0 then CHR ''-'' # decimal_digits (nat \<lfloor>- x\<rfloor>)
      else decimal_digits (nat \<lfloor>x\<rfloor>))"

text \<open>
  Modelled from the spec: the parser (\<^verbatim>\<open>./parser\<close>) is not among the sources. This table
  gives four grammar strings the trees of the spec's data model: an alternation of two
  keywords, a group in a group, a grammar that quotes another property, and a grammar
  that quotes its own property. Every other argument gets the empty sequence.
\<close>

definition sample_parse :: "string option \<Rightarrow> entities" where
  "sample_parse s =
     (if s = Some ''red | blue'' then
        [(0, Keyword ''red'' None), (1, ICombinator SingleBar), (2, Keyword ''blue'' None)]
      else if s = Some ''[ [ a ] ]'' then
        [(0, Group [(0, Group [(0, Keyword ''a'' None)] None)] None)]
      else if s = Some ''<'nested'>'' then
        [(0, DataType ''<'nested'>'' None)]
      else if s = Some ''<'loop'>'' then
        [(0, DataType ''<'loop'>'' None)]
      else [])"

text \<open>The names every object inherits from \<^verbatim>\<open>Object.prototype\<close>.\<close>

definition object_prototype_names :: "string list" where
  "object_prototype_names =
     [''constructor'', ''hasOwnProperty'', ''isPrototypeOf'', ''propertyIsEnumerable'',
      ''toLocaleString'', ''toString'', ''valueOf'', ''__proto__'', ''__defineGetter__'',
      ''__defineSetter__'', ''__lookupGetter__'', ''__lookupSetter__'']"

definition sample_env :: env where
  "sample_env =
     \<lparr> properties =
         [(''color'', ''red | blue''), (''nested'', ''[ [ a ] ]''),
          (''outer'', ''<'nested'>'')],
       parse = sample_parse,
       cssTypes = [''length'', ''number'', ''integer'', ''string'', ''color''],
       syntaxes = {''color'', ''length''},
       inherited = object_prototype_names,
       js_Number = sample_Number,
       js_String = sample_String \<rparr>"

text \<open>The same with a property whose grammar quotes the property itself.\<close>

definition looping_env :: env where
  "looping_env =
     sample_env \<lparr> properties := (''loop'', ''<'loop'>'') # properties sample_env \<rparr>"

section \<open>Insertion only grows the array\<close>

lemma addString_mem: "Type_String \<in> set (addString types)"
  by (auto simp: addString_def list_all_iff)

lemma addString_subset: "set types \<subseteq> set (addString types)"
  by (auto simp: addString_def)

lemma addLength_subset: "set types \<subseteq> set (addLength types)"
  by (auto simp: addLength_def)

lemma addNumber_subset: "set types \<subseteq> set (addNumber types)"
  by (auto simp: addNumber_def)

lemma addStringLiteral_subset: "set types \<subseteq> set (addStringLiteral types s)"
  by (auto simp: addStringLiteral_def)

lemma addNumericLiteral_subset: "set types \<subseteq> set (addNumericLiteral types x)"
  by (auto simp: addNumericLiteral_def)

lemma addDataType_subset: "set types \<subseteq> set (addDataType types s)"
  by (auto simp: addDataType_def)

lemma addType_subset: "set types \<subseteq> set (addType types t)"
  by (cases t) (simp_all add: addString_subset addLength_subset addNumber_subset
      addStringLiteral_subset addNumericLiteral_subset addDataType_subset)

lemma addTypes_subset: "set types \<subseteq> set (addTypes types ts)"
  unfolding addTypes_def
proof (induction ts arbitrary: types)
  case Nil
  show ?case by simp
next
  case (Cons t ts)
  have "set types \<subseteq> set (addType types t)" by (rule addType_subset)
  also have "\<dots> \<subseteq> set (foldl addType (addType types t) ts)" by (rule Cons.IH)
  finally show ?case by simp
qed

lemma addStringLiteral_mem: "Type_StringLiteral s \<in> set (addStringLiteral types s)"
  by (auto simp: addStringLiteral_def list_all_iff)

lemma addDataType_mem: "Type_DataType s \<in> set (addDataType types s)"
  by (auto simp: addDataType_def list_all_iff)

lemma is_numeric_literal_eq: "is_numeric_literal x t \<Longrightarrow> t = Type_NumericLiteral x"
  by (cases t) (auto simp: strict_eq_def)

lemma addNumericLiteral_mem: "Type_NumericLiteral x \<in> set (addNumericLiteral types x)"
  by (auto simp: addNumericLiteral_def list_all_iff dest: is_numeric_literal_eq)

lemma add_result_Types: "add_result (Types a) (Types ts) = Types (addTypes a ts)"
  by (cases ts) (simp_all add: addTypes_def)

lemma add_with_Types: "add_with add types = Types ts' \<Longrightarrow> \<exists>ts. types = Types ts \<and> ts' = add ts"
  by (cases types) simp_all

lemma addType_entry_Types:
  "addType_entry types entry = Types ts' \<Longrightarrow>
     \<exists>b ts. entry = Some b \<and> types = Types ts \<and> ts' = addType ts b"
  by (cases entry) (auto dest: add_with_Types)

lemma add_result_is_Types:
  "add_result types result = Types ts' \<Longrightarrow>
     \<exists>ts rs. types = Types ts \<and> result = Types rs \<and> ts' = addTypes ts rs"
proof (cases result)
  case (Types rs)
  assume a: "add_result types result = Types ts'"
  show ?thesis
  proof (cases rs)
    case Nil
    with a Types show ?thesis by (simp add: addTypes_def)
  next
    case (Cons t rs')
    with a Types show ?thesis by (auto dest: add_with_Types)
  qed
qed simp_all

lemma add_typing_Types:
  assumes "add_typing recurse inner fallback types = Some (Types ts')"
  shows "\<exists>ts rs. types = Types ts \<and> recurse inner = Some (Types rs)
    \<and> ts' = addTypes (if fallback then addString ts else ts) rs"
proof -
  let ?t = "if fallback then add_with addString types else types"
  from assms obtain result where r: "recurse inner = Some result"
      and a: "add_result ?t result = Types ts'"
    by (auto simp: add_typing_def split: if_splits option.splits)
  from add_result_is_Types [OF a] obtain ts1 rs where t1: "?t = Types ts1"
      and res: "result = Types rs" and ts': "ts' = addTypes ts1 rs"
    by blast
  from t1 obtain ts where "types = Types ts" and "ts1 = (if fallback then addString ts else ts)"
    by (cases types) (auto split: if_splits)
  with r res ts' show ?thesis by blast
qed

text \<open>
  A step of the loop that starts from an array and ends with one has only added to it;
  from \<^verbatim>\<open>undefined\<close> no step leads back to an array.
\<close>

lemma typing_body_Types:
  assumes "typing_body e recurse es types x = Some (Types ts')"
  shows "\<exists>ts. types = Types ts \<and> set ts \<subseteq> set ts'"
proof -
  obtain r ent where x: "x = (r, ent)" by (cases x)
  have s: "set ts \<subseteq> set (addString ts)" for ts by (rule addString_subset)
  have t: "set ts \<subseteq> set (addTypes (if fallback then addString ts else ts) rs)" for fallback ts rs
    using addString_subset [of ts] addTypes_subset [of "addString ts" rs]
      addTypes_subset [of ts rs] by auto
  show ?thesis
  proof (cases ent)
    case (Keyword v m)
    with assms x have "types = Types ts'
        \<or> add_with (\<lambda>ts. addNumericLiteral ts (js_Number e v)) types = Types ts'
        \<or> add_with (\<lambda>ts. addStringLiteral ts v) types = Types ts'"
      by (auto split: if_splits)
    then show ?thesis
      using addNumericLiteral_subset addStringLiteral_subset
      by (auto dest!: add_with_Types)
  next
    case (DataType v m)
    with assms x have "types = Types ts' \<or> add_with addString types = Types ts'
        \<or> (\<exists>inner. add_typing recurse inner (multiplied m) types = Some (Types ts'))
        \<or> (\<exists>entry. addType_entry types entry = Types ts')
        \<or> add_with (\<lambda>ts. addDataType ts (slice_1_m1 v)) types = Types ts'"
      by (auto split: if_splits option.splits)
    then show ?thesis
      using s t addType_subset addDataType_subset
      by (auto dest!: add_with_Types add_typing_Types addType_entry_Types)
  next
    case (Group inner m)
    with assms x have "types = Types ts'
        \<or> add_typing recurse inner (multiplied m) types = Some (Types ts')"
      by (auto split: if_splits)
    then show ?thesis using t by (auto dest!: add_typing_Types)
  next
    case (ICombinator c)
    with assms x have "types = Types ts' \<or> add_with addString types = Types ts'"
      by (auto split: if_splits)
    then show ?thesis using s by (auto dest!: add_with_Types)
  next
    case (IFunction m)
    with assms x have "add_with addString types = Types ts'" by auto
    then show ?thesis using s by (auto dest!: add_with_Types)
  qed
qed

lemma for_of_Types:
  assumes step: "\<And>types x ts'. body types x = Some (Types ts')
      \<Longrightarrow> \<exists>ts. types = Types ts \<and> set ts \<subseteq> set ts'"
  shows "for_of body xs types = Some (Types ts') \<Longrightarrow> \<exists>ts. types = Types ts \<and> set ts \<subseteq> set ts'"
proof (induction xs arbitrary: types)
  case Nil
  then show ?case by simp
next
  case (Cons x xs)
  then obtain t1 where b: "body types x = Some t1" and r: "for_of body xs t1 = Some (Types ts')"
    by (auto split: option.splits outcome.splits)
  from Cons.IH [OF r] obtain ts1 where t1: "t1 = Types ts1" and s1: "set ts1 \<subseteq> set ts'"
    by blast
  from step [of types x ts1] b t1 obtain ts where "types = Types ts" and "set ts \<subseteq> set ts1"
    by blast
  with s1 show ?case by blast
qed

lemma for_of_elem:
  assumes step: "\<And>types x ts'. body types x = Some (Types ts')
      \<Longrightarrow> \<exists>ts. types = Types ts \<and> set ts \<subseteq> set ts'"
  shows "x \<in> set xs \<Longrightarrow> for_of body xs types = Some (Types ts') \<Longrightarrow>
    \<exists>s1 s2. body (Types s1) x = Some (Types s2) \<and> set s2 \<subseteq> set ts'"
proof (induction xs arbitrary: types)
  case Nil
  then show ?case by simp
next
  case (Cons y ys)
  from Cons.prems(2) obtain t1 where b: "body types y = Some t1"
      and r: "for_of body ys t1 = Some (Types ts')"
    by (auto split: option.splits outcome.splits)
  show ?case
  proof (cases "x = y")
    case True
    from r have "\<exists>ts. t1 = Types ts \<and> set ts \<subseteq> set ts'"
      by (rule for_of_Types [where body = body, rotated]) (erule step)
    then obtain ts1 where t1: "t1 = Types ts1" and s1: "set ts1 \<subseteq> set ts'"
      by blast
    from step [of types y ts1] b t1 obtain ts where "types = Types ts" by blast
    with b t1 s1 True show ?thesis by blast
  next
    case False
    with Cons.prems(1) have "x \<in> set ys" by simp
    from Cons.IH [OF this r] show ?thesis .
  qed
qed

lemma typing_elem:
  assumes "x \<in> set es" and "typing e n es = Some (Types ts)"
  shows "\<exists>recurse s1 s2. typing_body e recurse es (Types s1) x = Some (Types s2)
    \<and> set s2 \<subseteq> set ts"
proof (cases n)
  case 0
  with assms show ?thesis by simp
next
  case (Suc k)
  with assms(2)
  have "for_of (typing_body e (\<lambda>es'. typing e k es') es) es (Types []) = Some (Types ts)"
    by simp
  moreover have "\<And>types x ts'. typing_body e (\<lambda>es'. typing e k es') es types x = Some (Types ts')
      \<Longrightarrow> \<exists>ts. types = Types ts \<and> set ts \<subseteq> set ts'"
    by (rule typing_body_Types)
  ultimately show ?thesis
    using for_of_elem [of "typing_body e (\<lambda>es'. typing e k es') es" x es "Types []" ts] assms(1)
    by blast
qed

section \<open>The scalar-type catalog: what it holds\<close>

lemma basicDataTypes_foldl:
  "foldl (basicDataTypes_step e) m names name =
     (if name \<in> set names then
        (if name = ''number'' \<or> name = ''integer'' then Some Type_Number
         else if name = ''length'' then Some Type_Length
         else if name \<notin> syntaxes e then Some Type_String
         else m name)
      else m name)"
proof (induction names arbitrary: m)
  case Nil
  show ?case by simp
next
  case (Cons a names)
  show ?case
    unfolding foldl_Cons Cons.IH
    by (auto simp: basicDataTypes_step_def)
qed

text \<open>
  Claim C9. The catalog holds an entry exactly for the names among
  \<^verbatim>\<open>Object.keys(cssTypes)\<close> and \<^verbatim>\<open>hex-color\<close> that are \<^verbatim>\<open>number\<close>, \<^verbatim>\<open>integer\<close>,
  \<^verbatim>\<open>length\<close>, or not a key of \<^verbatim>\<open>syntaxes\<close>: \<^verbatim>\<open>number\<close> and \<^verbatim>\<open>integer\<close> map to Number,
  \<^verbatim>\<open>length\<close> to Length, any other name without a syntax of its own to String, and a
  name with one has no entry.
\<close>

theorem catalog_entries:
  "basicDataTypes e name =
     (if name \<in> set (cssTypes e) \<union> {''hex-color''} then
        (if name = ''number'' \<or> name = ''integer'' then Some Type_Number
         else if name = ''length'' then Some Type_Length
         else if name \<notin> syntaxes e then Some Type_String
         else None)
      else None)"
  unfolding basicDataTypes_def basicDataTypes_foldl by simp

theorem catalog_entries_witness:
  "map (basicDataTypes sample_env)
     [''length'', ''number'', ''integer'', ''string'', ''color'', ''hex-color'', ''foo'']
   = [Some Type_Length, Some Type_Number, Some Type_Number, Some Type_String, None,
      Some Type_String, None]"
  by (simp add: catalog_entries sample_env_def)

section \<open>Functions, combinators, keywords and unresolved references\<close>

lemma single_included: "shouldIncludeComponent [(r, x)] r"
  by (simp add: shouldIncludeComponent_def right_scan.simps)

lemma alt_included_0:
  "shouldIncludeComponent [(r0, Keyword a m0), (r1, ICombinator SingleBar), (r2, Keyword b m2)] r0"
  by (simp add: shouldIncludeComponent_def right_scan.simps [of _ "Suc 0"] at_index_def)

lemma alt_included_2:
  "shouldIncludeComponent [(r0, Keyword a m0), (r1, ICombinator SingleBar), (r2, Keyword b m2)] r2"
  apply (simp add: shouldIncludeComponent_def Let_def)
  apply (auto simp: right_scan.simps [of _ "Suc 0"] right_scan.simps [of _ "Suc (Suc 0)"] right_scan.simps [of _ 2] right_scan.simps [of _ 3]
      right_scan.simps [of _ "Suc (Suc (Suc 0))"] at_index_def numeral_2_eq_2 numeral_3_eq_3)
  done

lemma slice_brackets: "slice_1_m1 (''<'' @ s @ ''>'') = s"
  by (simp add: slice_1_m1_def butlast_append)

lemma exec_quoted_none: "CHR 0x27 \<notin> set s \<Longrightarrow> exec_quoted s = None"
  by (induction s) auto

lemma exec_quoted_some:
  assumes "name \<noteq> []" and "CHR 0x27 \<notin> set name"
  shows "exec_quoted (CHR 0x27 # name @ [CHR 0x27]) = Some name"
proof -
  have "takeWhile (\<lambda>d. d \<noteq> CHR 0x27) (name @ [CHR 0x27]) = name"
    using assms(2) by (induction name) auto
  moreover have "dropWhile (\<lambda>d. d \<noteq> CHR 0x27) (name @ [CHR 0x27]) = [CHR 0x27]"
    using assms(2) by (induction name) auto
  ultimately show ?thesis using assms(1) by simp
qed

text \<open>
  Claim C10. The gate \<open>shouldIncludeComponent\<close> is consulted for components only. A
  function entity adds String to the array whatever the array \<open>es\<close> around it is, so
  also after a juxtaposition whose other operand has no multiplier; what a combinator
  does to \<^verbatim>\<open>types\<close> depends on the combinator alone, not on the array or the
  environment. Hence String is in the result of every sequence that holds a function
  entity.
\<close>

theorem function_and_combinator_ungated:
  "typing_body e recurse es (Types types) (r, IFunction m) = Some (Types (addString types))
   \<and> typing_body e recurse es acc (r, IFunction m) = Some (add_with addString acc)
   \<and> typing_body e recurse es acc (r, ICombinator c)
       = typing_body e' recurse' es' acc (r', ICombinator c)
   \<and> ((r, IFunction m) \<in> set es \<and> typing e n es = Some (Types ts) \<longrightarrow> Type_String \<in> set ts)"
proof (intro conjI impI)
  assume a: "(r, IFunction m) \<in> set es \<and> typing e n es = Some (Types ts)"
  then obtain rec s1 s2 where "typing_body e rec es (Types s1) (r, IFunction m) = Some (Types s2)"
      and sub: "set s2 \<subseteq> set ts"
    using typing_elem [of "(r, IFunction m)" es e n ts] by blast
  then have "s2 = addString s1" by simp
  with sub addString_mem [of s1] show "Type_String \<in> set ts" by blast
qed simp_all

text \<open>
  Claim C6. A combinator \<^verbatim>\<open>||\<close>, \<^verbatim>\<open>&&\<close> or juxtaposition anywhere in a sequence puts
  String into the sequence's result; the combinator \<^verbatim>\<open>|\<close> leaves \<^verbatim>\<open>types\<close> as it is.
  The alternation of the keywords \<^verbatim>\<open>left\<close> and \<^verbatim>\<open>right\<close> (neither of which survives
  \<^verbatim>\<open>String(Number(...))\<close>) yields the two string literals and nothing else.
\<close>

theorem combinator_contribution:
  "((r, ICombinator c) \<in> set es \<and> c \<noteq> SingleBar \<and> typing e n es = Some (Types ts)
      \<longrightarrow> Type_String \<in> set ts)
   \<and> typing_body e recurse es acc (r, ICombinator SingleBar) = Some acc
   \<and> (js_String e (js_Number e ''left'') \<noteq> ''left''
        \<and> js_String e (js_Number e ''right'') \<noteq> ''right''
      \<longrightarrow> typing e (Suc k)
            [(p, Keyword ''left'' mp), (q, ICombinator SingleBar), (s, Keyword ''right'' ms)]
          = Some (Types [Type_StringLiteral ''left'', Type_StringLiteral ''right'']))"
proof (intro conjI impI)
  assume a: "(r, ICombinator c) \<in> set es \<and> c \<noteq> SingleBar \<and> typing e n es = Some (Types ts)"
  then obtain rec s1 s2
    where b: "typing_body e rec es (Types s1) (r, ICombinator c) = Some (Types s2)"
      and sub: "set s2 \<subseteq> set ts"
    using typing_elem [of "(r, ICombinator c)" es e n ts] by blast
  from a have "c = DoubleBar \<or> isMandatoryCombinator c" by (cases c) simp_all
  with b have "s2 = addString s1" by auto
  with sub addString_mem [of s1] show "Type_String \<in> set ts" by blast
next
  show "typing_body e recurse es acc (r, ICombinator SingleBar) = Some acc" by simp
next
  assume "js_String e (js_Number e ''left'') \<noteq> ''left''
        \<and> js_String e (js_Number e ''right'') \<noteq> ''right''"
  then show "typing e (Suc k)
        [(p, Keyword ''left'' mp), (q, ICombinator SingleBar), (s, Keyword ''right'' ms)]
      = Some (Types [Type_StringLiteral ''left'', Type_StringLiteral ''right''])"
    using alt_included_0 [of p "''left''" mp q s "''right''" ms]
      alt_included_2 [of p "''left''" mp q s "''right''" ms]
    by (simp add: addStringLiteral_def)
qed

text \<open>
  Claim C5. An included keyword whose text \<open>v\<close> satisfies \<^verbatim>\<open>String(Number(v)) === v\<close>
  puts the numeric literal \<^verbatim>\<open>Number(v)\<close> into the result, and any other included keyword
  puts the string literal \<open>v\<close> there, unchanged. A keyword alone in its sequence yields
  exactly that one descriptor. The witness runs the six keywords of the claim.
\<close>

theorem keyword_literal:
  "((r, Keyword v m) \<in> set es \<and> shouldIncludeComponent es r \<and> typing e n es = Some (Types ts)
      \<longrightarrow> (if js_String e (js_Number e v) = v
           then Type_NumericLiteral (js_Number e v) \<in> set ts
           else Type_StringLiteral v \<in> set ts))
   \<and> typing e (Suc k) [(r, Keyword v m)]
       = Some (Types [if js_String e (js_Number e v) = v
                      then Type_NumericLiteral (js_Number e v) else Type_StringLiteral v])"
proof (intro conjI impI)
  assume a: "(r, Keyword v m) \<in> set es \<and> shouldIncludeComponent es r
    \<and> typing e n es = Some (Types ts)"
  then obtain rec s1 s2
    where b: "typing_body e rec es (Types s1) (r, Keyword v m) = Some (Types s2)"
      and sub: "set s2 \<subseteq> set ts"
    using typing_elem [of "(r, Keyword v m)" es e n ts] by blast
  show "if js_String e (js_Number e v) = v
        then Type_NumericLiteral (js_Number e v) \<in> set ts
        else Type_StringLiteral v \<in> set ts"
  proof (cases "js_String e (js_Number e v) = v")
    case True
    with a b have "s2 = addNumericLiteral s1 (js_Number e v)" by simp
    with sub addNumericLiteral_mem [of "js_Number e v" s1] True show ?thesis by auto
  next
    case False
    with a b have "s2 = addStringLiteral s1 v" by simp
    with sub addStringLiteral_mem [of v s1] False show ?thesis by auto
  qed
next
  show "typing e (Suc k) [(r, Keyword v m)]
       = Some (Types [if js_String e (js_Number e v) = v
                      then Type_NumericLiteral (js_Number e v) else Type_StringLiteral v])"
    using single_included [of r "Keyword v m"]
    by (simp add: addStringLiteral_def addNumericLiteral_def)
qed

lemma sample_Number_values:
  "js_Number sample_env ''0'' = Finite 0"
  "js_Number sample_env ''1'' = Finite 1"
  "js_Number sample_env ''42'' = Finite 42"
  "js_Number sample_env ''+0'' = Finite 0"
  "js_Number sample_env ''007'' = Finite 7"
  "js_Number sample_env ''auto'' = NaN"
  "js_Number sample_env ''left'' = NaN"
  "js_Number sample_env ''right'' = NaN"
  "js_Number sample_env ''NaN'' = NaN"
  by code_simp+

lemma sample_String_values:
  "js_String sample_env (Finite 0) = ''0''"
  "js_String sample_env (Finite 1) = ''1''"
  "js_String sample_env (Finite 7) = ''7''"
  "js_String sample_env (Finite 42) = ''42''"
  "js_String sample_env NaN = ''NaN''"
  by code_simp+

lemma sample_env_simps:
  "js_Number sample_env = sample_Number"
  "js_String sample_env = sample_String"
  "parse sample_env = sample_parse"
  "cssTypes sample_env = [''length'', ''number'', ''integer'', ''string'', ''color'']"
  "syntaxes sample_env = {''color'', ''length''}"
  by (simp_all add: sample_env_def)


lemma ex_function_after_juxtaposition:
  "typing sample_env 1
     [(0, Keyword ''a'' None), (1, ICombinator Juxtaposition), (2, IFunction None)]
   = Some (Types [Type_String])"
  by code_simp

lemma ex_keyword_after_juxtaposition:
  "\<not> shouldIncludeComponent
       [(0, Keyword ''a'' None), (1, ICombinator Juxtaposition), (2, Keyword ''b'' None)] 2"
  by code_simp

theorem function_and_combinator_ungated_witness:
  "(2, IFunction None)
     \<in> set [(0, Keyword ''a'' None), (1, ICombinator Juxtaposition), (2, IFunction None)]
   \<and> typing sample_env 1
       [(0, Keyword ''a'' None), (1, ICombinator Juxtaposition), (2, IFunction None)]
     = Some (Types [Type_String])
   \<and> Type_String \<in> set [Type_String]
   \<and> typing_body sample_env (\<lambda>es. None)
       [(0, Keyword ''a'' None), (1, ICombinator Juxtaposition), (2, IFunction None)] (Types [])
       (2, IFunction None) = Some (Types [Type_String])
   \<and> typing_body sample_env (\<lambda>es. None)
       [(0, Keyword ''a'' None), (1, ICombinator Juxtaposition), (2, Keyword ''b'' None)] (Types [])
       (2, Keyword ''b'' None) = Some (Types [])"
proof -
  note t = function_and_combinator_ungated
    [where e = sample_env and recurse = "\<lambda>es. None" and types = "[]" and acc = "Types []" and r = 2 and m = None
      and es = "[(0, Keyword ''a'' None), (1, ICombinator Juxtaposition), (2, IFunction None)]"
      and n = 1 and ts = "[Type_String]"]
  have m: "(2, IFunction None)
      \<in> set [(0, Keyword ''a'' None), (1, ICombinator Juxtaposition), (2, IFunction None)]"
    by simp
  have "Type_String \<in> set [Type_String]"
    using t m ex_function_after_juxtaposition by blast
  moreover have "typing_body sample_env (\<lambda>es. None)
       [(0, Keyword ''a'' None), (1, ICombinator Juxtaposition), (2, IFunction None)] (Types [])
       (2, IFunction None) = Some (Types [Type_String])"
    using t by (simp add: addString_def)
  moreover have "typing_body sample_env (\<lambda>es. None)
       [(0, Keyword ''a'' None), (1, ICombinator Juxtaposition), (2, Keyword ''b'' None)] (Types [])
       (2, Keyword ''b'' None) = Some (Types [])"
    using ex_keyword_after_juxtaposition by simp
  ultimately show ?thesis using m ex_function_after_juxtaposition by blast
qed

lemma ex_double_bar:
  "typing sample_env 1
     [(0, Keyword ''a'' None), (1, ICombinator DoubleBar), (2, Keyword ''b'' None)]
   = Some (Types [Type_StringLiteral ''a'', Type_String, Type_StringLiteral ''b''])"
  by code_simp

lemma ex_double_bar_included:
  "shouldIncludeComponent
     [(0, Keyword ''a'' None), (1, ICombinator DoubleBar), (2, Keyword ''b'' None)] 0"
  by code_simp

theorem combinator_contribution_witness:
  "(1, ICombinator DoubleBar)
     \<in> set [(0, Keyword ''a'' None), (1, ICombinator DoubleBar), (2, Keyword ''b'' None)]
   \<and> DoubleBar \<noteq> SingleBar
   \<and> typing sample_env 1
       [(0, Keyword ''a'' None), (1, ICombinator DoubleBar), (2, Keyword ''b'' None)]
     = Some (Types [Type_StringLiteral ''a'', Type_String, Type_StringLiteral ''b''])
   \<and> Type_String \<in> set [Type_StringLiteral ''a'', Type_String, Type_StringLiteral ''b'']
   \<and> js_String sample_env (js_Number sample_env ''left'') \<noteq> ''left''
   \<and> js_String sample_env (js_Number sample_env ''right'') \<noteq> ''right''
   \<and> typing sample_env 1
       [(0, Keyword ''left'' None), (1, ICombinator SingleBar), (2, Keyword ''right'' None)]
     = Some (Types [Type_StringLiteral ''left'', Type_StringLiteral ''right''])"
proof -
  note t = combinator_contribution
    [where e = sample_env and r = 1 and c = DoubleBar and n = 1 and k = 0
      and es = "[(0, Keyword ''a'' None), (1, ICombinator DoubleBar), (2, Keyword ''b'' None)]"
      and ts = "[Type_StringLiteral ''a'', Type_String, Type_StringLiteral ''b'']"
      and p = 0 and q = 1 and s = 2 and mp = None and ms = None]
  have m: "(1, ICombinator DoubleBar)
      \<in> set [(0, Keyword ''a'' None), (1, ICombinator DoubleBar), (2, Keyword ''b'' None)]"
    by simp
  have d: "DoubleBar \<noteq> SingleBar" by simp
  have l: "js_String sample_env (js_Number sample_env ''left'') \<noteq> ''left''"
    by (simp add: sample_Number_values sample_String_values)
  have r: "js_String sample_env (js_Number sample_env ''right'') \<noteq> ''right''"
    by (simp add: sample_Number_values sample_String_values)
  have "Type_String \<in> set [Type_StringLiteral ''a'', Type_String, Type_StringLiteral ''b'']"
    using t m d ex_double_bar by blast
  moreover have "typing sample_env (Suc 0)
       [(0, Keyword ''left'' None), (1, ICombinator SingleBar), (2, Keyword ''right'' None)]
     = Some (Types [Type_StringLiteral ''left'', Type_StringLiteral ''right''])"
    using t l r by blast
  ultimately show ?thesis using m d l r ex_double_bar unfolding One_nat_def by blast
qed

theorem keyword_literal_witness:
  "typing sample_env 1 [(0, Keyword ''0'' None)] = Some (Types [Type_NumericLiteral (Finite 0)])
   \<and> typing sample_env 1 [(0, Keyword ''1'' None)] = Some (Types [Type_NumericLiteral (Finite 1)])
   \<and> typing sample_env 1 [(0, Keyword ''42'' None)] = Some (Types [Type_NumericLiteral (Finite 42)])
   \<and> typing sample_env 1 [(0, Keyword ''auto'' None)] = Some (Types [Type_StringLiteral ''auto''])
   \<and> typing sample_env 1 [(0, Keyword ''+0'' None)] = Some (Types [Type_StringLiteral ''+0''])
   \<and> typing sample_env 1 [(0, Keyword ''007'' None)] = Some (Types [Type_StringLiteral ''007''])
   \<and> (0, Keyword ''a'' None)
       \<in> set [(0, Keyword ''a'' None), (1, ICombinator DoubleBar), (2, Keyword ''b'' None)]
   \<and> shouldIncludeComponent
       [(0, Keyword ''a'' None), (1, ICombinator DoubleBar), (2, Keyword ''b'' None)] 0
   \<and> typing sample_env 1
       [(0, Keyword ''a'' None), (1, ICombinator DoubleBar), (2, Keyword ''b'' None)]
     = Some (Types [Type_StringLiteral ''a'', Type_String, Type_StringLiteral ''b''])
   \<and> Type_StringLiteral ''a''
       \<in> set [Type_StringLiteral ''a'', Type_String, Type_StringLiteral ''b'']"
proof -
  note v = sample_Number_values sample_String_values
  have "(if js_String sample_env (js_Number sample_env ''0'') = ''0''
         then Type_NumericLiteral (js_Number sample_env ''0'') else Type_StringLiteral ''0'')
        = Type_NumericLiteral (Finite 0)"
    by (simp add: v)
  with keyword_literal [where e = sample_env and k = 0 and r = 0 and m = None
      and v = "''0''", THEN conjunct2]
  have k0: "typing sample_env (Suc 0) [(0, Keyword ''0'' None)]
      = Some (Types [Type_NumericLiteral (Finite 0)])"
    by (simp only:)
  have "(if js_String sample_env (js_Number sample_env ''1'') = ''1''
         then Type_NumericLiteral (js_Number sample_env ''1'') else Type_StringLiteral ''1'')
        = Type_NumericLiteral (Finite 1)"
    by (simp add: v)
  with keyword_literal [where e = sample_env and k = 0 and r = 0 and m = None
      and v = "''1''", THEN conjunct2]
  have k1: "typing sample_env (Suc 0) [(0, Keyword ''1'' None)]
      = Some (Types [Type_NumericLiteral (Finite 1)])"
    by (simp only:)
  have "(if js_String sample_env (js_Number sample_env ''42'') = ''42''
         then Type_NumericLiteral (js_Number sample_env ''42'') else Type_StringLiteral ''42'')
        = Type_NumericLiteral (Finite 42)"
    by (simp add: v)
  with keyword_literal [where e = sample_env and k = 0 and r = 0 and m = None
      and v = "''42''", THEN conjunct2]
  have k42: "typing sample_env (Suc 0) [(0, Keyword ''42'' None)]
      = Some (Types [Type_NumericLiteral (Finite 42)])"
    by (simp only:)
  have "(if js_String sample_env (js_Number sample_env ''auto'') = ''auto''
         then Type_NumericLiteral (js_Number sample_env ''auto'')
         else Type_StringLiteral ''auto'')
        = Type_StringLiteral ''auto''"
    by (simp add: v)
  with keyword_literal [where e = sample_env and k = 0 and r = 0 and m = None
      and v = "''auto''", THEN conjunct2]
  have kauto: "typing sample_env (Suc 0) [(0, Keyword ''auto'' None)]
      = Some (Types [Type_StringLiteral ''auto''])"
    by (simp only:)
  have "(if js_String sample_env (js_Number sample_env ''+0'') = ''+0''
         then Type_NumericLiteral (js_Number sample_env ''+0'') else Type_StringLiteral ''+0'')
        = Type_StringLiteral ''+0''"
    by (simp add: v)
  with keyword_literal [where e = sample_env and k = 0 and r = 0 and m = None
      and v = "''+0''", THEN conjunct2]
  have kplus: "typing sample_env (Suc 0) [(0, Keyword ''+0'' None)]
      = Some (Types [Type_StringLiteral ''+0''])"
    by (simp only:)
  have "(if js_String sample_env (js_Number sample_env ''007'') = ''007''
         then Type_NumericLiteral (js_Number sample_env ''007'')
         else Type_StringLiteral ''007'')
        = Type_StringLiteral ''007''"
    by (simp add: v)
  with keyword_literal [where e = sample_env and k = 0 and r = 0 and m = None
      and v = "''007''", THEN conjunct2]
  have kpad: "typing sample_env (Suc 0) [(0, Keyword ''007'' None)]
      = Some (Types [Type_StringLiteral ''007''])"
    by (simp only:)
  have m: "(0, Keyword ''a'' None)
      \<in> set [(0, Keyword ''a'' None), (1, ICombinator DoubleBar), (2, Keyword ''b'' None)]"
    by simp
  have "Type_StringLiteral ''a''
      \<in> set [Type_StringLiteral ''a'', Type_String, Type_StringLiteral ''b'']"
    by simp
  with k0 k1 k42 kauto kplus kpad m show ?thesis
    using ex_double_bar ex_double_bar_included unfolding One_nat_def by blast
qed

text \<open>
  A quoted name that \<^verbatim>\<open>in\<close> does not find in \<^verbatim>\<open>properties\<close> adds String and nothing
  else, and a bare name that \<^verbatim>\<open>in\<close> does not find in the catalog adds the data type
  descriptor of that name; whether the bare name is a key of \<^verbatim>\<open>properties\<close> is not
  looked at.
\<close>

lemma unknown_references:
  "(name \<noteq> [] \<and> CHR 0x27 \<notin> set name \<and> \<not> in_properties e name \<longrightarrow>
      typing_body e recurse es (Types types)
          (r, DataType (''<'' @ CHR 0x27 # name @ CHR 0x27 # ''>'') m)
        = Some (Types (if shouldIncludeComponent es r then addString types else types))
      \<and> typing e (Suc k) [(r, DataType (''<'' @ CHR 0x27 # name @ CHR 0x27 # ''>'') m)]
        = Some (Types [Type_String]))
   \<and> (CHR 0x27 \<notin> set name \<and> \<not> in_basicDataTypes e name \<longrightarrow>
      typing_body e recurse es (Types types) (r, DataType (''<'' @ name @ ''>'') m)
        = Some (Types (if shouldIncludeComponent es r then addDataType types name else types))
      \<and> typing e (Suc k) [(r, DataType (''<'' @ name @ ''>'') m)]
        = Some (Types [Type_DataType name]))"
proof (intro conjI impI)
  assume a: "name \<noteq> [] \<and> CHR 0x27 \<notin> set name \<and> \<not> in_properties e name"
  have s: "slice_1_m1 (''<'' @ CHR 0x27 # name @ CHR 0x27 # ''>'') = CHR 0x27 # name @ [CHR 0x27]"
    using slice_brackets [of "CHR 0x27 # name @ [CHR 0x27]"] by simp
  have x: "exec_quoted (CHR 0x27 # name @ [CHR 0x27]) = Some name"
    using a exec_quoted_some by blast
  show "typing_body e recurse es (Types types)
          (r, DataType (''<'' @ CHR 0x27 # name @ CHR 0x27 # ''>'') m)
        = Some (Types (if shouldIncludeComponent es r then addString types else types))"
    using a by (simp only: typing_body.simps s x) simp
  show "typing e (Suc k) [(r, DataType (''<'' @ CHR 0x27 # name @ CHR 0x27 # ''>'') m)]
        = Some (Types [Type_String])"
    using a single_included [of r "DataType (''<'' @ CHR 0x27 # name @ CHR 0x27 # ''>'') m"]
    by (simp only: typing.simps for_of.simps typing_body.simps s x) (simp add: addString_def)
next
  assume a: "CHR 0x27 \<notin> set name \<and> \<not> in_basicDataTypes e name"
  have s: "slice_1_m1 (''<'' @ name @ ''>'') = name" by (rule slice_brackets)
  have x: "exec_quoted name = None" using a exec_quoted_none by blast
  show "typing_body e recurse es (Types types) (r, DataType (''<'' @ name @ ''>'') m)
        = Some (Types (if shouldIncludeComponent es r then addDataType types name else types))"
    using a by (simp only: typing_body.simps s x) simp
  show "typing e (Suc k) [(r, DataType (''<'' @ name @ ''>'') m)]
        = Some (Types [Type_DataType name])"
    using a single_included [of r "DataType (''<'' @ name @ ''>'') m"]
    by (simp only: typing.simps for_of.simps typing_body.simps s x) (simp add: addDataType_def)
qed

text \<open>
  Claim C7 on the code. The catalog is a plain object and the test is
  \<^verbatim>\<open>value in basicDataTypes\<close>, so the bare name \<^verbatim>\<open>toString\<close>, which the catalog has no
  entry for, is found by inheritance; \<^verbatim>\<open>addType\<close> gets a function, matches no case and
  returns \<^verbatim>\<open>undefined\<close>. The sequence \<^verbatim>\<open><toString>\<close> returns \<^verbatim>\<open>undefined\<close>, and
  \<^verbatim>\<open><toString> | a\<close> throws a TypeError at the keyword. The quoted name
  \<^verbatim>\<open>'toString'\<close>, no key of \<^verbatim>\<open>properties\<close>, is found by inheritance too and takes the
  branch of a known property: the result is that of the recursive call, not String.
  The names \<^verbatim>\<open>nope\<close> and \<^verbatim>\<open>foo\<close>, not inherited, give String and the data type.
\<close>

theorem inherited_name_faults:
  "basicDataTypes sample_env ''toString'' = None
   \<and> map_of (properties sample_env) ''toString'' = None
   \<and> typing sample_env 1 [(0, DataType ''<toString>'' None)] = Some Undefined
   \<and> typing sample_env 1
       [(0, DataType ''<toString>'' None), (1, ICombinator SingleBar), (2, Keyword ''a'' None)]
     = Some TypeError
   \<and> typing_body sample_env (\<lambda>es. Some (Types [Type_Number]))
       [(0, DataType ''<'toString'>'' None)] (Types []) (0, DataType ''<'toString'>'' None)
     = Some (Types [Type_Number])
   \<and> typing sample_env 1 [(0, DataType ''<'nope'>'' None)] = Some (Types [Type_String])
   \<and> typing sample_env 1 [(0, DataType ''<foo>'' None)] = Some (Types [Type_DataType ''foo''])"
  by code_simp

section \<open>The inclusion gate on a juxtaposition\<close>

lemma indexOf_first:
  "k < length es \<Longrightarrow> fst (es ! k) \<notin> fst ` set (take k es) \<Longrightarrow> indexOf es (fst (es ! k)) = int k"
proof (induction es arbitrary: k)
  case Nil
  then show ?case by simp
next
  case (Cons x es)
  show ?case
  proof (cases k)
    case 0
    then show ?thesis by simp
  next
    case (Suc j)
    with Cons.prems have j: "j < length es" and n: "fst (es ! j) \<notin> fst ` set (take j es)"
        and d: "fst x \<noteq> fst (es ! j)"
      by auto
    from Cons.IH [OF j n] d Suc show ?thesis by (simp add: Let_def)
  qed
qed

lemma at_index_int: "i < length es \<Longrightarrow> at_index es (int i) = Some (es ! i)"
  by (simp add: at_index_def)

lemma for_of_skip:
  assumes "\<And>types. body types x = Some types"
  shows "types \<noteq> TypeError \<Longrightarrow> for_of body (xs @ x # ys) types = for_of body (xs @ ys) types"
proof (induction xs arbitrary: types)
  case Nil
  then show ?case by (cases types) (simp_all add: assms)
next
  case (Cons a xs)
  show ?case
  proof (cases "body types a")
    case None
    then show ?thesis by simp
  next
    case (Some t)
    then show ?thesis using Cons.IH [of t] by (cases t) simp_all
  qed
qed

lemma typing_body_excluded:
  "isComponent c \<Longrightarrow> \<not> shouldIncludeComponent es r \<Longrightarrow>
     typing_body e recurse es types (r, c) = Some types"
  by (cases c) simp_all

text \<open>
  When neither the component object nor the combinator object occurs earlier in the
  array, \<^verbatim>\<open>indexOf\<close> gives their positions, and a component right after a juxtaposition
  whose left operand fails the gate's test is skipped: the result of the sequence is
  the loop over the other entities.
\<close>

lemma juxtaposition_excludes:
  assumes "k < length es" and "2 \<le> k"
    and "es ! k = (r, c)" and "isComponent c"
    and "es ! (k - 1) = (j, ICombinator Juxtaposition)"
    and "\<not> isOptionalEntity (snd (es ! (k - 2)))"
    and "r \<notin> fst ` set (take k es)"
    and "j \<notin> fst ` set (take (k - 1) es)"
  shows "\<not> shouldIncludeComponent es r
    \<and> typing_body e recurse es types (r, c) = Some types
    \<and> typing e (Suc n) es
        = for_of (typing_body e (\<lambda>es'. typing e n es') es) (take k es @ drop (Suc k) es)
            (Types [])"
proof -
  obtain i where k: "k = Suc (Suc i)"
    using assms(2) by (metis One_nat_def Suc_1 Suc_le_D Suc_le_mono)
  have ir: "indexOf es r = int k"
    using indexOf_first [of k es] assms(1,3,7) by simp
  have ij: "indexOf es j = int (Suc i)"
    using indexOf_first [of "Suc i" es] assms(1,5,8) k by simp
  have aj: "at_index es (int (Suc i)) = Some (j, ICombinator Juxtaposition)"
    using at_index_int [of "Suc i" es] assms(1,5) k by simp
  have ap: "previousEntity es j = Some (es ! i)"
    using at_index_int [of i es] assms(1) k ij by (simp add: previousEntity_def)
  have "\<not> left_scan es (Suc (Suc i))"
    using aj ap assms(6) k by simp
  moreover have "nat (indexOf es r) = Suc (Suc i)"
    using ir k by simp
  ultimately have ex: "\<not> shouldIncludeComponent es r"
    by (simp add: shouldIncludeComponent_def del: left_scan.simps)
  have body: "typing_body e rec es s (r, c) = Some s" for rec s
    using typing_body_excluded [OF assms(4) ex] .
  have "es = take k es @ (r, c) # drop (Suc k) es"
    using assms(1,3) by (metis id_take_nth_drop)
  then have "for_of (typing_body e (\<lambda>es'. typing e n es') es) es (Types [])
      = for_of (typing_body e (\<lambda>es'. typing e n es') es)
          (take k es @ (r, c) # drop (Suc k) es) (Types [])"
    by simp
  also have "\<dots> = for_of (typing_body e (\<lambda>es'. typing e n es') es)
      (take k es @ drop (Suc k) es) (Types [])"
    by (rule for_of_skip) (simp_all add: body)
  finally show ?thesis using ex body by simp
qed

text \<open>
  Claim C1 on the code. Two sequences on which a component right after a juxtaposition
  is kept although the left operand has no optional multiplier. In \<^verbatim>\<open>a{1,4} b\<close> the
  gate takes \<^verbatim>\<open>a{1,4}\<close> for optional (its test on a bounded range is \<^verbatim>\<open>min > 0\<close>), so
  \<^verbatim>\<open>b\<close> is kept. In \<^verbatim>\<open>a? b c\<close> with one combinator object used for both
  juxtapositions, \<^verbatim>\<open>previousEntity\<close> looks the second juxtaposition up with
  \<^verbatim>\<open>indexOf\<close>, finds the first, and returns \<^verbatim>\<open>a?\<close> instead of \<^verbatim>\<open>b\<close>, so \<^verbatim>\<open>c\<close> is
  kept; with two combinator objects \<^verbatim>\<open>c\<close> is skipped.
\<close>

theorem juxtaposed_component_kept:
  "shouldIncludeComponent
       [(0, Keyword ''a'' (Some (CurlyBracet (Finite 1) (Finite 4)))),
        (1, ICombinator Juxtaposition), (2, Keyword ''b'' None)] 2
   \<and> typing sample_env 1
       [(0, Keyword ''a'' (Some (CurlyBracet (Finite 1) (Finite 4)))),
        (1, ICombinator Juxtaposition), (2, Keyword ''b'' None)]
     = Some (Types [Type_String, Type_StringLiteral ''b''])
   \<and> shouldIncludeComponent
       [(0, Keyword ''a'' (Some QuestionMark)), (1, ICombinator Juxtaposition),
        (2, Keyword ''b'' None), (1, ICombinator Juxtaposition), (3, Keyword ''c'' None)] 3
   \<and> typing sample_env 1
       [(0, Keyword ''a'' (Some QuestionMark)), (1, ICombinator Juxtaposition),
        (2, Keyword ''b'' None), (1, ICombinator Juxtaposition), (3, Keyword ''c'' None)]
     = Some (Types [Type_String, Type_StringLiteral ''c''])
   \<and> typing sample_env 1
       [(0, Keyword ''a'' (Some QuestionMark)), (1, ICombinator Juxtaposition),
        (2, Keyword ''b'' None), (4, ICombinator Juxtaposition), (3, Keyword ''c'' None)]
     = Some (Types [Type_String])"
  by code_simp

text \<open>
  Claim C2 on the code. For a bounded range \<open>isOptionalEntity\<close> tests \<^verbatim>\<open>min > 0\<close>:
  \<^verbatim>\<open>a{0,2}\<close>, which may be absent, is not optional for the gate, and \<^verbatim>\<open>a{1,2}\<close>,
  which may not, is. So \<^verbatim>\<open>b\<close> after \<^verbatim>\<open>a{0,2}\<close> is excluded, and \<^verbatim>\<open>b\<close> after
  \<^verbatim>\<open>a{1,2}\<close> is included, as it is after \<^verbatim>\<open>a?\<close>.
\<close>

theorem bounded_range_optional_inverted:
  "\<not> isOptionalEntity (Keyword ''a'' (Some (CurlyBracet (Finite 0) (Finite 2))))
   \<and> isOptionalEntity (Keyword ''a'' (Some (CurlyBracet (Finite 1) (Finite 2))))
   \<and> typing sample_env 1
       [(0, Keyword ''a'' (Some (CurlyBracet (Finite 0) (Finite 2)))),
        (1, ICombinator Juxtaposition), (2, Keyword ''b'' None)]
     = Some (Types [Type_String])
   \<and> typing sample_env 1
       [(0, Keyword ''a'' (Some (CurlyBracet (Finite 1) (Finite 2)))),
        (1, ICombinator Juxtaposition), (2, Keyword ''b'' None)]
     = Some (Types [Type_String, Type_StringLiteral ''b''])
   \<and> typing sample_env 1
       [(0, Keyword ''a'' (Some QuestionMark)),
        (1, ICombinator Juxtaposition), (2, Keyword ''b'' None)]
     = Some (Types [Type_String, Type_StringLiteral ''b''])"
  by code_simp

section \<open>Multipliers and the String fallback\<close>

text \<open>
  Claim C3 on the code. \<open>isMultiplied\<close> is consulted for a group and for a quoted
  known property only. A keyword with \<^verbatim>\<open>+\<close>, a catalog data type with \<^verbatim>\<open>#\<close> and an
  unknown bare data type with \<^verbatim>\<open>*\<close>, each alone in its sequence and so included,
  yield their own descriptor and no String; the group and the quoted property with
  the same multipliers do get String.
\<close>

theorem multiplied_keyword_without_string:
  "isMultiplied PlusSign \<and> isMultiplied HashMark
   \<and> typing sample_env 1 [(0, Keyword ''auto'' (Some PlusSign))]
     = Some (Types [Type_StringLiteral ''auto''])
   \<and> typing sample_env 1 [(0, DataType ''<length>'' (Some HashMark))] = Some (Types [Type_Length])
   \<and> typing sample_env 1 [(0, DataType ''<unknown>'' (Some Asterisk))]
     = Some (Types [Type_DataType ''unknown''])
   \<and> typing sample_env 2 [(0, Group [(0, Keyword ''auto'' None)] (Some PlusSign))]
     = Some (Types [Type_String, Type_StringLiteral ''auto''])
   \<and> typing sample_env 2 [(0, DataType ''<'color'>'' (Some HashMark))]
     = Some (Types [Type_String, Type_StringLiteral ''red'', Type_StringLiteral ''blue''])"
  by code_simp

section \<open>Insertion without duplicates\<close>

text \<open>
  Claim C4 on the code. \<open>addNumericLiteral\<close> looks for the literal with \<^verbatim>\<open>===\<close>, and
  \<^verbatim>\<open>NaN === NaN\<close> is false: a numeric literal of NaN is inserted every time. Inserting
  it twice gives two entries where inserting it once gives one. The keyword \<^verbatim>\<open>NaN\<close>
  survives \<^verbatim>\<open>String(Number(...))\<close>, so the alternation \<^verbatim>\<open>NaN | NaN\<close> returns two equal
  entries.
\<close>

theorem nan_literal_inserted_twice:
  "addType (addType [] (Type_NumericLiteral NaN)) (Type_NumericLiteral NaN)
     = [Type_NumericLiteral NaN, Type_NumericLiteral NaN]
   \<and> addType [] (Type_NumericLiteral NaN) = [Type_NumericLiteral NaN]
   \<and> js_Number sample_env ''NaN'' = NaN \<and> js_String sample_env NaN = ''NaN''
   \<and> typing sample_env 1
       [(0, Keyword ''NaN'' None), (1, ICombinator SingleBar), (2, Keyword ''NaN'' None)]
     = Some (Types [Type_NumericLiteral NaN, Type_NumericLiteral NaN])
   \<and> \<not> distinct [Type_NumericLiteral NaN, Type_NumericLiteral NaN]"
  by code_simp

text \<open>
  Every other descriptor is inserted once: the sibling insertion functions compare
  with a value that equals itself, and so does \<open>addNumericLiteral\<close> on any number but
  NaN.
\<close>

lemma addType_mem: "t \<in> set (addType types t)"
  by (cases t) (simp_all add: addString_mem addLength_def addNumber_def addStringLiteral_mem
      addNumericLiteral_mem addDataType_mem list_all_iff)

lemma addType_present:
  assumes "t \<in> set types" and "t \<noteq> Type_NumericLiteral NaN"
  shows "addType types t = types"
proof (cases t)
  case (Type_NumericLiteral x)
  with assms have "x \<noteq> NaN" by simp
  then have "is_numeric_literal x (Type_NumericLiteral x)" by (simp add: strict_eq_def)
  with assms(1) Type_NumericLiteral have "\<exists>u\<in>set types. is_numeric_literal x u"
    by blast
  then have "\<not> list_all (\<lambda>u. \<not> is_numeric_literal x u) types"
    by (simp add: list_all_iff)
  with Type_NumericLiteral show ?thesis by (simp add: addNumericLiteral_def)
qed (use assms in \<open>auto simp: addString_def addLength_def addNumber_def addStringLiteral_def
      addDataType_def list_all_iff\<close>)

lemma addType_no_duplicates:
  assumes "no_duplicates types"
  shows "no_duplicates (addType types t)"
proof (cases "t \<in> set types \<and> t \<noteq> Type_NumericLiteral NaN")
  case True
  with assms show ?thesis by (simp add: addType_present)
next
  case False
  have "addType types t = types \<or> addType types t = types @ [t]"
    by (cases t) (simp_all add: addString_def addLength_def addNumber_def addStringLiteral_def
        addNumericLiteral_def addDataType_def)
  with assms False show ?thesis by (auto simp: no_duplicates_def)
qed

lemma addTypes_no_duplicates: "no_duplicates types \<Longrightarrow> no_duplicates (addTypes types ts)"
  unfolding addTypes_def
  by (induction ts arbitrary: types) (simp_all add: addType_no_duplicates)

lemma addString_is_addType: "addString types = addType types Type_String"
  and addStringLiteral_is_addType: "addStringLiteral types s = addType types (Type_StringLiteral s)"
  and addNumericLiteral_is_addType: "addNumericLiteral types x = addType types (Type_NumericLiteral x)"
  and addDataType_is_addType: "addDataType types s = addType types (Type_DataType s)"
  by simp_all

lemma typing_body_Types_form:
  assumes "typing_body e recurse es types x = Some (Types ts')"
  shows "\<exists>ts. types = Types ts \<and> (ts' = ts \<or> (\<exists>t. ts' = addType ts t)
    \<or> (\<exists>fallback rs. ts' = addTypes (if fallback then addString ts else ts) rs))"
    (is "\<exists>ts. types = Types ts \<and> ?F ts")
proof -
  obtain r ent where x: "x = (r, ent)" by (cases x)
  have same: "types = Types ts' \<Longrightarrow> \<exists>ts. types = Types ts \<and> ?F ts" by blast
  have str: "add_with addString types = Types ts' \<Longrightarrow> \<exists>ts. types = Types ts \<and> ?F ts"
    by (drule add_with_Types) (use addString_is_addType in blast)
  have lit: "add_with (\<lambda>ts. addStringLiteral ts v) types = Types ts'
      \<Longrightarrow> \<exists>ts. types = Types ts \<and> ?F ts" for v
    by (drule add_with_Types) (use addStringLiteral_is_addType in blast)
  have num: "add_with (\<lambda>ts. addNumericLiteral ts v) types = Types ts'
      \<Longrightarrow> \<exists>ts. types = Types ts \<and> ?F ts" for v
    by (drule add_with_Types) (use addNumericLiteral_is_addType in blast)
  have dat: "add_with (\<lambda>ts. addDataType ts v) types = Types ts'
      \<Longrightarrow> \<exists>ts. types = Types ts \<and> ?F ts" for v
    by (drule add_with_Types) (use addDataType_is_addType in blast)
  have ent: "addType_entry types entry = Types ts' \<Longrightarrow> \<exists>ts. types = Types ts \<and> ?F ts"
    for entry
    by (drule addType_entry_Types) blast
  have rec: "add_typing recurse inner fallback types = Some (Types ts')
      \<Longrightarrow> \<exists>ts. types = Types ts \<and> ?F ts" for inner fallback
    by (drule add_typing_Types) blast
  show ?thesis
  proof (cases ent)
    case (Keyword v m)
    with assms x have "types = Types ts'
        \<or> add_with (\<lambda>ts. addNumericLiteral ts (js_Number e v)) types = Types ts'
        \<or> add_with (\<lambda>ts. addStringLiteral ts v) types = Types ts'"
      by (auto split: if_splits)
    then show ?thesis using same num lit by blast
  next
    case (DataType v m)
    with assms x have "types = Types ts' \<or> add_with addString types = Types ts'
        \<or> (\<exists>inner. add_typing recurse inner (multiplied m) types = Some (Types ts'))
        \<or> (\<exists>entry. addType_entry types entry = Types ts')
        \<or> add_with (\<lambda>ts. addDataType ts (slice_1_m1 v)) types = Types ts'"
      by (auto split: if_splits option.splits)
    then show ?thesis using same str rec ent dat by blast
  next
    case (Group inner m)
    with assms x have "types = Types ts'
        \<or> add_typing recurse inner (multiplied m) types = Some (Types ts')"
      by (auto split: if_splits)
    then show ?thesis using same rec by blast
  next
    case (ICombinator c)
    with assms x have "types = Types ts' \<or> add_with addString types = Types ts'"
      by (auto split: if_splits)
    then show ?thesis using same str by blast
  next
    case (IFunction m)
    with assms x have "add_with addString types = Types ts'" by auto
    then show ?thesis using str by blast
  qed
qed

lemma typing_body_no_duplicates:
  assumes "typing_body e recurse es (Types ts) x = Some (Types ts')" and "no_duplicates ts"
  shows "no_duplicates ts'"
proof -
  have a: "no_duplicates (addTypes (if fallback then addString ts else ts) rs)" for fallback rs
    using assms(2) addType_no_duplicates [of ts Type_String]
    by (simp add: addTypes_no_duplicates)
  have b: "no_duplicates (addType ts t)" for t
    using assms(2) by (rule addType_no_duplicates)
  from typing_body_Types_form [OF assms(1)]
  have "ts' = ts \<or> (\<exists>t. ts' = addType ts t)
    \<or> (\<exists>fallback rs. ts' = addTypes (if fallback then addString ts else ts) rs)"
    by simp
  then show ?thesis using a b assms(2) by blast
qed

lemma for_of_invariant:
  assumes step: "\<And>types x ts'. body types x = Some (Types ts')
      \<Longrightarrow> \<exists>ts. types = Types ts \<and> (P ts \<longrightarrow> P ts')"
  shows "for_of body xs types = Some (Types ts') \<Longrightarrow> \<exists>ts. types = Types ts \<and> (P ts \<longrightarrow> P ts')"
proof (induction xs arbitrary: types)
  case Nil
  then show ?case by simp
next
  case (Cons x xs)
  then obtain t1 where b: "body types x = Some t1" and r: "for_of body xs t1 = Some (Types ts')"
    by (auto split: option.splits outcome.splits)
  from Cons.IH [OF r] obtain ts1 where t1: "t1 = Types ts1" and s1: "P ts1 \<longrightarrow> P ts'"
    by blast
  from step [of types x ts1] b t1 obtain ts where "types = Types ts" and "P ts \<longrightarrow> P ts1"
    by blast
  with s1 show ?case by blast
qed

lemma typing_no_duplicates:
  assumes "typing e n es = Some (Types ts)"
  shows "no_duplicates ts"
proof (cases n)
  case 0
  with assms show ?thesis by simp
next
  case (Suc k)
  with assms
  have f: "for_of (typing_body e (\<lambda>es'. typing e k es') es) es (Types []) = Some (Types ts)"
    by simp
  have "\<exists>ts0. Types [] = Types ts0 \<and> (no_duplicates ts0 \<longrightarrow> no_duplicates ts)"
  proof (rule for_of_invariant [where body = "typing_body e (\<lambda>es'. typing e k es') es", OF _ f])
    fix types x ts'
    assume b: "typing_body e (\<lambda>es'. typing e k es') es types x = Some (Types ts')"
    from typing_body_Types [OF b] obtain ts1 where t: "types = Types ts1" by blast
    with b typing_body_no_duplicates [of e _ es ts1 x ts']
    show "\<exists>ts. types = Types ts \<and> (no_duplicates ts \<longrightarrow> no_duplicates ts')" by blast
  qed
  then show ?thesis by (simp add: no_duplicates_def)
qed

lemma insertion_once:
  "(t \<noteq> Type_NumericLiteral NaN \<longrightarrow>
      addType (addTypes (addType types t) others) t = addTypes (addType types t) others)
   \<and> (typing e n es = Some (Types ts) \<longrightarrow>
      distinct (filter (\<lambda>t. t \<noteq> Type_NumericLiteral NaN) ts))"
proof (intro conjI impI)
  assume "t \<noteq> Type_NumericLiteral NaN"
  moreover have "t \<in> set (addTypes (addType types t) others)"
    using addType_mem [of t types] addTypes_subset [of "addType types t" others] by blast
  ultimately show "addType (addTypes (addType types t) others) t
      = addTypes (addType types t) others"
    by (simp add: addType_present)
next
  assume "typing e n es = Some (Types ts)"
  then show "distinct (filter (\<lambda>t. t \<noteq> Type_NumericLiteral NaN) ts)"
    using typing_no_duplicates by (simp add: no_duplicates_def)
qed

section \<open>Termination\<close>

lemma for_of_mono:
  assumes "\<And>s x s'. body s x = Some s' \<Longrightarrow> body' s x = Some s'"
  shows "for_of body xs s = Some s' \<Longrightarrow> for_of body' xs s = Some s'"
proof (induction xs arbitrary: s)
  case Nil
  then show ?case by simp
next
  case (Cons x xs)
  then obtain s1 where b: "body s x = Some s1" by (auto split: option.splits)
  show ?case
  proof (cases "s1 = TypeError")
    case True
    with Cons.prems b assms [OF b] show ?thesis by simp
  next
    case False
    with Cons.prems b have r: "for_of body xs s1 = Some s'" by (cases s1) simp_all
    from assms [OF b] Cons.IH [OF r] False show ?thesis by (cases s1) simp_all
  qed
qed

lemma add_typing_mono:
  assumes "\<And>x y. recurse x = Some y \<Longrightarrow> recurse' x = Some y"
    and "add_typing recurse inner fallback s = Some s'"
  shows "add_typing recurse' inner fallback s = Some s'"
proof (cases "(if fallback then add_with addString s else s) = TypeError")
  case True
  with assms(2) show ?thesis by (simp add: add_typing_def)
next
  case False
  with assms(2) obtain result where r: "recurse inner = Some result"
      and s': "s' = add_result (if fallback then add_with addString s else s) result"
    by (auto simp: add_typing_def split: option.splits)
  from assms(1) [OF r] False s' show ?thesis by (simp add: add_typing_def)
qed

lemma add_typing_total: "recurse inner \<noteq> None \<Longrightarrow> add_typing recurse inner fallback s \<noteq> None"
  by (auto simp: add_typing_def)

lemma typing_body_mono:
  assumes "\<And>x y. recurse x = Some y \<Longrightarrow> recurse' x = Some y"
    and "typing_body e recurse es s x = Some s'"
  shows "typing_body e recurse' es s x = Some s'"
proof -
  obtain r ent where x: "x = (r, ent)" by (cases x)
  note m = add_typing_mono [where recurse = recurse and recurse' = recurse', OF assms(1)]
  show ?thesis
  proof (cases ent)
    case (DataType v m)
    with assms(2) x show ?thesis
      by (auto split: if_splits option.splits intro: m)
  next
    case (Group inner m)
    with assms(2) x show ?thesis
      by (auto split: if_splits option.splits intro: m)
  qed (use assms(2) x in \<open>auto\<close>)
qed

lemma typing_Suc: "typing e n es = Some out \<Longrightarrow> typing e (Suc n) es = Some out"
proof (induction n arbitrary: es out)
  case 0
  then show ?case by simp
next
  case (Suc n)
  from Suc.prems
  have "for_of (typing_body e (\<lambda>es'. typing e n es') es) es (Types []) = Some out"
    by simp
  then have "for_of (typing_body e (\<lambda>es'. typing e (Suc n) es') es) es (Types []) = Some out"
  proof (rule for_of_mono [rotated])
    fix s x s'
    assume "typing_body e (\<lambda>es'. typing e n es') es s x = Some s'"
    then show "typing_body e (\<lambda>es'. typing e (Suc n) es') es s x = Some s'"
      by (rule typing_body_mono [rotated]) (rule Suc.IH)
  qed
  then show ?case by (subst typing.simps(2))
qed

lemma typing_more_fuel: "typing e n es = Some out \<Longrightarrow> typing e (n + k) es = Some out"
proof (induction k)
  case 0
  then show ?case by simp
next
  case (Suc k)
  then have "typing e (Suc (n + k)) es = Some out" by (intro typing_Suc)
  then show ?case by (simp only: add_Suc_right)
qed

lemma typing_fuel_le: "typing e m es \<noteq> None \<Longrightarrow> m \<le> n \<Longrightarrow> typing e n es \<noteq> None"
  using typing_more_fuel [of e m es _ "n - m"] by auto

lemma for_of_total:
  "(\<And>x s. x \<in> set xs \<Longrightarrow> body s x \<noteq> None) \<Longrightarrow> for_of body xs s \<noteq> None"
proof (induction xs arbitrary: s)
  case Nil
  show ?case by simp
next
  case (Cons x xs)
  from Cons.prems [of x s] obtain s1 where b: "body s x = Some s1" by auto
  have "for_of body xs s1 \<noteq> None" using Cons.IH Cons.prems by simp
  with b show ?case by (cases s1) simp_all
qed

lemma nesting_member: "x \<in> set es \<Longrightarrow> nesting_entity (snd x) \<le> nesting es"
  by (induction es) auto

lemma references_member: "x \<in> set es \<Longrightarrow> references_entity (snd x) \<subseteq> references es"
  by (induction es) auto

lemma bare_names_member: "x \<in> set es \<Longrightarrow> bare_names_entity (snd x) \<subseteq> bare_names es"
  by (induction es) auto

lemma typing_enough_fuel:
  assumes "\<And>q. q \<in> references es \<Longrightarrow> in_properties e q \<Longrightarrow> typing e m (grammar e q) \<noteq> None"
    and "Suc (nesting es) + m \<le> n"
  shows "typing e n es \<noteq> None"
  using assms
proof (induction n arbitrary: es)
  case 0
  then show ?case by simp
next
  case (Suc n)
  have "typing_body e (\<lambda>es'. typing e n es') es s x \<noteq> None" if x: "x \<in> set es" for x s
  proof -
    obtain r ent where xe: "x = (r, ent)" by (cases x)
    show ?thesis
    proof (cases ent)
      case (DataType v w)
      show ?thesis
      proof (cases "exec_quoted (slice_1_m1 v)")
        case None
        with xe DataType show ?thesis by (simp split: option.splits)
      next
        case (Some name)
        show ?thesis
        proof (cases "in_properties e name")
          case False
          with xe DataType Some show ?thesis by simp
        next
          case True
          have "name \<in> references es"
            using references_member [OF x] xe DataType Some by simp
          from Suc.prems(1) [OF this True] have "typing e m (grammar e name) \<noteq> None" .
          moreover have "m \<le> n" using Suc.prems(2) by simp
          ultimately have "typing e n (grammar e name) \<noteq> None" by (rule typing_fuel_le)
          then have "add_typing (\<lambda>es'. typing e n es') (parse e (syntax_of e name))
              (multiplied w) s \<noteq> None"
            unfolding grammar_def by (rule add_typing_total)
          with xe DataType Some True show ?thesis by simp
        qed
      qed
    next
      case (Group inner w)
      have sub: "references inner \<subseteq> references es"
        using references_member [OF x] xe Group by simp
      have "Suc (nesting inner) \<le> nesting es"
        using nesting_member [OF x] xe Group by simp
      with Suc.prems(2) have le: "Suc (nesting inner) + m \<le> n" by simp
      have "typing e n inner \<noteq> None"
      proof (rule Suc.IH [OF _ le])
        fix q
        assume "q \<in> references inner" and "in_properties e q"
        with sub Suc.prems(1) show "typing e m (grammar e q) \<noteq> None" by blast
      qed
      then have "add_typing (\<lambda>es'. typing e n es') inner (multiplied w) s \<noteq> None"
        by (rule add_typing_total)
      with xe Group show ?thesis by simp
    qed (use xe in \<open>auto\<close>)
  qed
  then have "for_of (typing_body e (\<lambda>es'. typing e n es') es) es (Types []) \<noteq> None"
    by (rule for_of_total)
  then show ?case by simp
qed

lemma typing_ranked:
  assumes rank: "\<And>q p. (q, p) \<in> reference_graph e es0 \<Longrightarrow> rank q < rank p"
    and depth: "\<And>p. p \<in> reached e es0 \<Longrightarrow> Suc (nesting (grammar e p)) \<le> D"
  shows "(\<And>q. q \<in> references es \<Longrightarrow> in_properties e q \<Longrightarrow> q \<in> reached e es0 \<and> rank q < R)
    \<Longrightarrow> typing e (Suc (nesting es) + R * D) es \<noteq> None"
proof (induction R arbitrary: es)
  case 0
  have "typing e (Suc (nesting es) + 0) es \<noteq> None"
  proof (rule typing_enough_fuel [where m = 0])
    fix q
    assume "q \<in> references es" and "in_properties e q"
    with "0.prems" [of q] show "typing e 0 (grammar e q) \<noteq> None" by auto
  qed simp
  then show ?case by simp
next
  case (Suc R)
  show ?case
  proof (rule typing_enough_fuel [where m = "Suc R * D"])
    fix q
    assume q: "q \<in> references es" and s: "in_properties e q"
    then have rq: "q \<in> reached e es0" "rank q < Suc R" using Suc.prems by blast+
    have "typing e (Suc (nesting (grammar e q)) + R * D) (grammar e q) \<noteq> None"
    proof (rule Suc.IH)
      fix q'
      assume a: "q' \<in> references (grammar e q)" and b: "in_properties e q'"
      with rq(1) have "(q', q) \<in> reference_graph e es0" by (simp add: reference_graph_def)
      from rank [OF this] rq(2) have "rank q' < R" by simp
      moreover from rq(1) a b have "q' \<in> reached e es0" by (rule reached.further)
      ultimately show "q' \<in> reached e es0 \<and> rank q' < R" by simp
    qed
    moreover have "Suc (nesting (grammar e q)) + R * D \<le> Suc R * D"
      using depth [OF rq(1)] by simp
    ultimately show "typing e (Suc R * D) (grammar e q) \<noteq> None"
      by (rule typing_fuel_le)
  qed simp
qed

lemma finite_references_entity: "finite (references_entity x)"
  and finite_references: "finite (references es)"
  by (induction x and es rule: references_entity_references.induct) (auto split: option.splits)

lemma uniform_bound:
  fixes P :: "'a \<Rightarrow> nat \<Rightarrow> bool"
  assumes "finite A" and "\<And>q. q \<in> A \<Longrightarrow> \<exists>n. P q n"
    and mono: "\<And>q n n'. P q n \<Longrightarrow> n \<le> n' \<Longrightarrow> P q n'"
  shows "\<exists>m. \<forall>q\<in>A. P q m"
  using assms(1,2)
proof (induction A)
  case empty
  show ?case by simp
next
  case (insert a A)
  then obtain m where m: "\<forall>q\<in>A. P q m" by auto
  from insert.prems [of a] obtain n where n: "P a n" by auto
  have "P a (max m n)" by (rule mono [OF n]) simp
  moreover have "\<forall>q\<in>A. P q (max m n)"
  proof
    fix q
    assume "q \<in> A"
    with m have "P q m" by blast
    then show "P q (max m n)" by (rule mono) simp
  qed
  ultimately show ?case by auto
qed

lemma typing_of_references:
  assumes "\<And>q. q \<in> references es \<Longrightarrow> in_properties e q \<Longrightarrow> \<exists>n. typing e n (grammar e q) \<noteq> None"
  shows "\<exists>n. typing e n es \<noteq> None"
proof -
  let ?P = "\<lambda>q n. in_properties e q \<longrightarrow> typing e n (grammar e q) \<noteq> None"
  have "\<exists>m. \<forall>q\<in>references es. ?P q m"
  proof (rule uniform_bound [OF finite_references])
    fix q
    assume q: "q \<in> references es"
    show "\<exists>n. ?P q n"
    proof (cases "in_properties e q")
      case False
      then show ?thesis by simp
    next
      case True
      from assms [OF q True] show ?thesis by simp
    qed
  next
    fix q n n'
    assume "?P q n" and "n \<le> n'"
    then show "?P q n'" using typing_fuel_le by blast
  qed
  then obtain m where m: "\<forall>q\<in>references es. ?P q m" ..
  have "typing e (Suc (nesting es) + m) es \<noteq> None"
    by (rule typing_enough_fuel [where m = m]) (use m in auto)
  then show ?thesis ..
qed

lemma finite_reference_graph: "finite (reference_graph e es)"
proof -
  let ?K = "set (map fst (properties e)) \<union> set (inherited e)"
  have k: "in_properties e q \<Longrightarrow> q \<in> ?K" for q
    by (auto simp: in_properties_def dest: map_of_SomeD intro: rev_image_eqI)
  have r: "p \<in> reached e es \<Longrightarrow> p \<in> ?K" for p
    by (erule reached.cases) (use k in blast)+
  have "reference_graph e es \<subseteq> ?K \<times> ?K"
    using k r by (auto simp: reference_graph_def)
  moreover have "finite (?K \<times> ?K)" by simp
  ultimately show ?thesis by (rule finite_subset)
qed

lemma typing_acyclic:
  assumes acyc: "acyclic (reference_graph e es)"
  shows "\<exists>n. typing e n es \<noteq> None"
proof -
  from acyc have wf: "wf (reference_graph e es)"
    by (simp add: finite_acyclic_wf finite_reference_graph)
  have props: "p \<in> reached e es \<longrightarrow> (\<exists>n. typing e n (grammar e p) \<noteq> None)" for p
  proof (induction p rule: wf_induct_rule [OF wf])
    case (1 p)
    show ?case
    proof
      assume p: "p \<in> reached e es"
      show "\<exists>n. typing e n (grammar e p) \<noteq> None"
      proof (rule typing_of_references)
        fix q
        assume q: "q \<in> references (grammar e p)" and s: "in_properties e q"
        with p have "(q, p) \<in> reference_graph e es" by (simp add: reference_graph_def)
        moreover from p q s have "q \<in> reached e es" by (rule reached.further)
        ultimately show "\<exists>n. typing e n (grammar e q) \<noteq> None" using "1.IH" by blast
      qed
    qed
  qed
  show ?thesis
    by (rule typing_of_references) (use props reached.quoted in blast)
qed

text \<open>
  A call that returns, returns an array, unless a data type names something the
  catalog only inherits: that is the one place where \<^verbatim>\<open>types\<close> becomes \<^verbatim>\<open>undefined\<close>.
\<close>

lemma reached_mono:
  assumes "\<And>q. q \<in> references es' \<Longrightarrow> in_properties e q \<Longrightarrow> q \<in> reached e es"
  shows "p \<in> reached e es' \<Longrightarrow> p \<in> reached e es"
  by (induction rule: reached.induct) (auto intro: assms reached.further)

lemma add_with_array: "types \<noteq> Undefined \<Longrightarrow> types \<noteq> TypeError \<Longrightarrow> \<exists>ts. add_with add types = Types ts"
  by (cases types) simp_all

lemma for_of_array:
  assumes step: "\<And>x ts out. x \<in> set xs \<Longrightarrow> body (Types ts) x = Some out \<Longrightarrow> \<exists>ts'. out = Types ts'"
  shows "for_of body xs (Types ts) = Some out \<Longrightarrow> \<exists>ts'. out = Types ts'"
  using step
proof (induction xs arbitrary: ts)
  case Nil
  then show ?case by auto
next
  case (Cons x xs)
  from Cons.prems(1) obtain s1 where b: "body (Types ts) x = Some s1"
    by (auto split: option.splits)
  from Cons.prems(2) [OF _ b] obtain ts1 where s1: "s1 = Types ts1" by auto
  with Cons.prems(1) b have r: "for_of body xs (Types ts1) = Some out" by simp
  show ?case by (rule Cons.IH [OF r]) (use Cons.prems(2) in auto)
qed

lemma add_typing_array:
  assumes "add_typing recurse inner fallback (Types ts) = Some out"
    and "\<And>result. recurse inner = Some result \<Longrightarrow> \<exists>rs. result = Types rs"
  shows "\<exists>ts'. out = Types ts'"
proof -
  let ?t = "if fallback then add_with addString (Types ts) else Types ts"
  obtain ts1 where t: "?t = Types ts1" by (cases fallback) simp_all
  with assms(1) obtain result where r: "recurse inner = Some result"
      and o: "out = add_result (Types ts1) result"
    by (auto simp: add_typing_def split: option.splits if_splits)
  from assms(2) [OF r] obtain rs where "result = Types rs" ..
  with o show ?thesis by (simp add: add_result_Types)
qed

lemma typing_array:
  assumes "\<And>v. v \<in> bare_names es \<Longrightarrow> \<not> inherited_data_type e v"
    and "\<And>p v. p \<in> reached e es \<Longrightarrow> v \<in> bare_names (grammar e p) \<Longrightarrow> \<not> inherited_data_type e v"
    and "typing e n es = Some out"
  shows "\<exists>ts. out = Types ts"
  using assms
proof (induction n arbitrary: es out)
  case 0
  then show ?case by simp
next
  case (Suc n)
  from Suc.prems(3)
  have f: "for_of (typing_body e (\<lambda>es'. typing e n es') es) es (Types []) = Some out"
    by simp
  show ?case
  proof (rule for_of_array [OF _ f])
    fix x ts out'
    assume x: "x \<in> set es"
      and b: "typing_body e (\<lambda>es'. typing e n es') es (Types ts) x = Some out'"
    obtain r ent where xe: "x = (r, ent)" by (cases x)
    show "\<exists>ts'. out' = Types ts'"
    proof (cases ent)
      case (Keyword v w)
      with b xe show ?thesis by (auto split: if_splits)
    next
      case (DataType v w)
      show ?thesis
      proof (cases "shouldIncludeComponent es r")
        case False
        with b xe DataType show ?thesis by auto
      next
        case gate: True
        show ?thesis
        proof (cases "exec_quoted (slice_1_m1 v)")
          case None
          then have "slice_1_m1 v \<in> bare_names es"
            using bare_names_member [OF x] xe DataType by simp
          then have "\<not> inherited_data_type e (slice_1_m1 v)" by (rule Suc.prems(1))
          then have "in_basicDataTypes e (slice_1_m1 v)
              \<Longrightarrow> \<exists>basic. basicDataTypes e (slice_1_m1 v) = Some basic"
            by (auto simp: inherited_data_type_def in_basicDataTypes_def)
          with b xe DataType None gate show ?thesis by (auto split: if_splits)
        next
          case (Some name)
          have ref: "name \<in> references es"
            using references_member [OF x] xe DataType Some by simp
          show ?thesis
          proof (cases "in_properties e name")
            case False
            with b xe DataType Some gate show ?thesis by auto
          next
            case True
            from ref True have re: "name \<in> reached e es" by (rule reached.quoted)
            from b xe DataType Some gate True
            have a: "add_typing (\<lambda>es'. typing e n es') (grammar e name) (multiplied w) (Types ts)
                = Some out'"
              by (simp add: grammar_def)
            show ?thesis
            proof (rule add_typing_array [OF a])
              fix result
              assume t: "typing e n (grammar e name) = Some result"
              show "\<exists>rs. result = Types rs"
              proof (rule Suc.IH [OF _ _ t])
                fix v'
                assume "v' \<in> bare_names (grammar e name)"
                with re show "\<not> inherited_data_type e v'" by (rule Suc.prems(2))
              next
                fix p v'
                assume p: "p \<in> reached e (grammar e name)"
                  and v': "v' \<in> bare_names (grammar e p)"
                have "p \<in> reached e es"
                  by (rule reached_mono [OF _ p]) (rule reached.further [OF re])
                then show "\<not> inherited_data_type e v'" using v' by (rule Suc.prems(2))
              qed
            qed
          qed
        qed
      qed
    next
      case (Group inner w)
      show ?thesis
      proof (cases "shouldIncludeComponent es r")
        case False
        with b xe Group show ?thesis by auto
      next
        case True
        with b xe Group
        have a: "add_typing (\<lambda>es'. typing e n es') inner (multiplied w) (Types ts) = Some out'"
          by simp
        have sub: "references inner \<subseteq> references es"
          using references_member [OF x] xe Group by simp
        have bsub: "bare_names inner \<subseteq> bare_names es"
          using bare_names_member [OF x] xe Group by simp
        show ?thesis
        proof (rule add_typing_array [OF a])
          fix result
          assume t: "typing e n inner = Some result"
          show "\<exists>rs. result = Types rs"
          proof (rule Suc.IH [OF _ _ t])
            fix v'
            assume "v' \<in> bare_names inner"
            with bsub show "\<not> inherited_data_type e v'" using Suc.prems(1) by blast
          next
            fix p v'
            assume p: "p \<in> reached e inner" and v': "v' \<in> bare_names (grammar e p)"
            have "p \<in> reached e es"
              by (rule reached_mono [OF _ p]) (use sub in \<open>auto intro: reached.quoted\<close>)
            then show "\<not> inherited_data_type e v'" using v' by (rule Suc.prems(2))
          qed
        qed
      qed
    next
      case (ICombinator c)
      with b xe show ?thesis by (auto split: if_splits)
    next
      case (IFunction w)
      with b xe show ?thesis by auto
    qed
  qed
qed


lemma reached_empty: "references es = {} \<Longrightarrow> reached e es = {}"
proof -
  assume a: "references es = {}"
  have "p \<in> reached e es \<Longrightarrow> False" for p
    by (induction rule: reached.induct) (use a in auto)
  then show ?thesis by auto
qed

lemma reference_graph_empty:
  assumes "\<And>p. p \<in> reached e es \<Longrightarrow> references (grammar e p) = {}"
  shows "reference_graph e es = {}"
  using assms by (auto simp: reference_graph_def)

text \<open>
  Claim C8, as the code has it. \<^verbatim>\<open>typing\<close> ends on every tree whose own reference
  graph (the quoted references between the properties the tree reaches) is acyclic; on
  a tree that quotes no name found in \<^verbatim>\<open>properties\<close>, \<open>Suc (nesting es)\<close> nested
  activations are enough. With a rank that falls along every reference of that graph,
  \<open>R\<close> above the ranks of the properties the tree quotes, and \<open>D\<close> at least
  \<open>Suc (nesting g)\<close> for the grammar \<open>g\<close> of every reached property, the depth
  \<open>Suc (nesting es) + R * D\<close> is enough: the tree's own nesting plus, for each link of
  the reference chain, the nesting of a property grammar. What a call ends with
  within some depth, it ends with within any larger one. And the call returns an array
  of descriptors when the tree and the grammars it reaches name nothing that a table
  only inherits.
\<close>

theorem typing_terminates:
  "(acyclic (reference_graph e es) \<longrightarrow> (\<exists>n out. typing e n es = Some out))
   \<and> ((\<forall>q. q \<in> references es \<longrightarrow> \<not> in_properties e q)
      \<longrightarrow> (\<exists>out. typing e (Suc (nesting es)) es = Some out))
   \<and> ((\<forall>q p. (q, p) \<in> reference_graph e es \<longrightarrow> rank q < rank p)
        \<and> (\<forall>q. q \<in> references es \<and> in_properties e q \<longrightarrow> rank q < R)
        \<and> (\<forall>p. p \<in> reached e es \<longrightarrow> Suc (nesting (grammar e p)) \<le> D)
      \<longrightarrow> (\<exists>out. typing e (Suc (nesting es) + R * D) es = Some out))
   \<and> (typing e n es = Some out \<longrightarrow> typing e (n + k) es = Some out)
   \<and> (own_names e es \<and> (\<forall>p. p \<in> reached e es \<longrightarrow> own_names e (grammar e p))
        \<and> typing e n es = Some out
      \<longrightarrow> (\<exists>ts. out = Types ts))"
proof (intro conjI impI)
  assume "acyclic (reference_graph e es)"
  then have "\<exists>n. typing e n es \<noteq> None" by (rule typing_acyclic)
  then show "\<exists>n out. typing e n es = Some out" by auto
next
  assume a: "\<forall>q. q \<in> references es \<longrightarrow> \<not> in_properties e q"
  have "typing e (Suc (nesting es)) es \<noteq> None"
    by (rule typing_enough_fuel [where m = 0]) (use a in auto)
  then show "\<exists>out. typing e (Suc (nesting es)) es = Some out" by auto
next
  assume a: "(\<forall>q p. (q, p) \<in> reference_graph e es \<longrightarrow> rank q < rank p)
        \<and> (\<forall>q. q \<in> references es \<and> in_properties e q \<longrightarrow> rank q < R)
        \<and> (\<forall>p. p \<in> reached e es \<longrightarrow> Suc (nesting (grammar e p)) \<le> D)"
  have "typing e (Suc (nesting es) + R * D) es \<noteq> None"
  proof (rule typing_ranked [where rank = rank and ?es0.0 = es])
    fix q
    assume "q \<in> references es" and "in_properties e q"
    then show "q \<in> reached e es \<and> rank q < R" using a reached.quoted by blast
  qed (use a in blast)+
  then show "\<exists>out. typing e (Suc (nesting es) + R * D) es = Some out" by auto
next
  assume "typing e n es = Some out"
  then show "typing e (n + k) es = Some out" by (rule typing_more_fuel)
next
  assume a: "own_names e es \<and> (\<forall>p. p \<in> reached e es \<longrightarrow> own_names e (grammar e p))
        \<and> typing e n es = Some out"
  show "\<exists>ts. out = Types ts"
  proof (rule typing_array)
    show "typing e n es = Some out" using a by simp
  qed (use a in \<open>auto simp: own_names_def\<close>)
qed

lemma sample_in_properties:
  "in_properties sample_env ''color''" "in_properties sample_env ''nested''"
  "in_properties sample_env ''outer''" "\<not> in_properties sample_env ''nope''"
  "in_properties looping_env ''color''" "in_properties looping_env ''loop''"
  by code_simp+

lemma sample_grammars:
  "grammar sample_env ''color''
     = [(0, Keyword ''red'' None), (1, ICombinator SingleBar), (2, Keyword ''blue'' None)]"
  "grammar sample_env ''nested'' = [(0, Group [(0, Group [(0, Keyword ''a'' None)] None)] None)]"
  "grammar sample_env ''outer'' = [(0, DataType ''<'nested'>'' None)]"
  "grammar looping_env ''color''
     = [(0, Keyword ''red'' None), (1, ICombinator SingleBar), (2, Keyword ''blue'' None)]"
  "grammar looping_env ''loop'' = [(0, DataType ''<'loop'>'' None)]"
  by code_simp+

lemma sample_references:
  "references (grammar sample_env ''color'') = {}"
  "references (grammar sample_env ''nested'') = {}"
  "references (grammar sample_env ''outer'') = {''nested''}"
  "references (grammar looping_env ''color'') = {}"
  "nesting (grammar sample_env ''color'') = 0"
  "nesting (grammar sample_env ''nested'') = 2"
  "nesting (grammar sample_env ''outer'') = 0"
  "bare_names (grammar sample_env ''nested'') = {}"
  "bare_names (grammar sample_env ''outer'') = {}"
  unfolding sample_grammars by code_simp+

lemma sample_own:
  "\<not> inherited_property sample_env ''outer''" "\<not> inherited_property sample_env ''nested''"
  by code_simp+

lemma ex_outer:
  "nesting [(0, Group [(0, DataType ''<'outer'>'' None)] None)] = 1"
  "references [(0, Group [(0, DataType ''<'outer'>'' None)] None)] = {''outer''}"
  "bare_names [(0, Group [(0, DataType ''<'outer'>'' None)] None)] = {}"
  "typing sample_env 6 [(0, Group [(0, DataType ''<'outer'>'' None)] None)]
     = Some (Types [Type_StringLiteral ''a''])"
  "typing sample_env 7 [(0, Group [(0, DataType ''<'outer'>'' None)] None)]
     = Some (Types [Type_StringLiteral ''a''])"
  "typing sample_env 8 [(0, Group [(0, DataType ''<'outer'>'' None)] None)]
     = Some (Types [Type_StringLiteral ''a''])"
  by code_simp+

lemma ex_outer_reached:
  "reached sample_env [(0, Group [(0, DataType ''<'outer'>'' None)] None)]
     = {''outer'', ''nested''}"
proof -
  let ?es = "[(0, Group [(0, DataType ''<'outer'>'' None)] None)]"
  have "p = ''outer'' \<or> p = ''nested''" if "p \<in> reached sample_env ?es" for p
    using that
    by (induction rule: reached.induct)
      (auto simp: ex_outer(2) sample_references
        simp del: references.simps references_entity.simps)
  moreover have o: "''outer'' \<in> reached sample_env ?es"
    by (rule reached.quoted) (simp_all only: ex_outer(2) sample_in_properties, simp)
  moreover have "''nested'' \<in> reached sample_env ?es"
    by (rule reached.further [OF o]) (simp_all add: sample_references sample_in_properties)
  ultimately show ?thesis by auto
qed

lemma ex_outer_graph:
  "reference_graph sample_env [(0, Group [(0, DataType ''<'outer'>'' None)] None)]
     = {(''nested'', ''outer'')}"
  unfolding reference_graph_def ex_outer_reached
  by (auto simp: sample_references sample_in_properties)

lemma ex_unknown:
  "references [(0, DataType ''<'nope'>'' None)] = {''nope''}"
  "nesting [(0, DataType ''<'nope'>'' None)] = 0"
  "typing sample_env 1 [(0, DataType ''<'nope'>'' None)] = Some (Types [Type_String])"
  by code_simp+

lemma ex_color:
  "references [(0, DataType ''<'color'>'' None)] = {''color''}"
  "typing looping_env 2 [(0, DataType ''<'color'>'' None)]
     = Some (Types [Type_StringLiteral ''red'', Type_StringLiteral ''blue''])"
  by code_simp+

lemma ex_color_graph: "reference_graph looping_env [(0, DataType ''<'color'>'' None)] = {}"
proof (rule reference_graph_empty)
  fix p
  assume "p \<in> reached looping_env [(0, DataType ''<'color'>'' None)]"
  then have "p = ''color''"
    by (induction rule: reached.induct)
      (auto simp: ex_color(1) sample_references
        simp del: references.simps references_entity.simps)
  then show "references (grammar looping_env p) = {}" by (simp add: sample_references)
qed

theorem typing_terminates_witness:
  "reference_graph sample_env [(0, Group [(0, DataType ''<'outer'>'' None)] None)]
     = {(''nested'', ''outer'')}
   \<and> acyclic (reference_graph sample_env [(0, Group [(0, DataType ''<'outer'>'' None)] None)])
   \<and> nesting [(0, Group [(0, DataType ''<'outer'>'' None)] None)] = 1
   \<and> typing sample_env (Suc 1 + 2 * 3) [(0, Group [(0, DataType ''<'outer'>'' None)] None)]
     = Some (Types [Type_StringLiteral ''a''])
   \<and> typing sample_env (6 + 1) [(0, Group [(0, DataType ''<'outer'>'' None)] None)]
     = Some (Types [Type_StringLiteral ''a''])
   \<and> own_names sample_env [(0, Group [(0, DataType ''<'outer'>'' None)] None)]
   \<and> own_names sample_env (grammar sample_env ''outer'')
   \<and> own_names sample_env (grammar sample_env ''nested'')
   \<and> \<not> in_properties sample_env ''nope''
   \<and> typing sample_env (Suc 0) [(0, DataType ''<'nope'>'' None)] = Some (Types [Type_String])
   \<and> acyclic (reference_graph looping_env [(0, DataType ''<'color'>'' None)])
   \<and> typing looping_env 2 [(0, DataType ''<'color'>'' None)]
     = Some (Types [Type_StringLiteral ''red'', Type_StringLiteral ''blue''])"
proof -
  let ?es = "[(0, Group [(0, DataType ''<'outer'>'' None)] None)]"
  let ?rank = "\<lambda>p. if p = ''outer'' then 1 else (0::nat)"
  let ?a = "Types [Type_StringLiteral ''a'']"
  note t = typing_terminates [where e = sample_env and es = ?es and rank = ?rank and R = 2
      and D = 3 and n = 6 and k = 1 and out = ?a]
  note u = typing_terminates [where e = sample_env and es = "[(0, DataType ''<'nope'>'' None)]"]
  note v = typing_terminates [where e = looping_env
      and es = "[(0, DataType ''<'color'>'' None)]"]
  have empty: "acyclic ({} :: (string \<times> string) set)" by (rule wf_acyclic) simp
  then have acy: "acyclic (reference_graph sample_env ?es)"
    by (simp add: ex_outer_graph acyclic_insert)
  have r1: "\<forall>q p. (q, p) \<in> reference_graph sample_env ?es \<longrightarrow> ?rank q < ?rank p"
    by (simp add: ex_outer_graph)
  have r2: "\<forall>q. q \<in> references ?es \<and> in_properties sample_env q \<longrightarrow> ?rank q < 2"
    by (simp only: ex_outer(2)) simp
  have r3: "\<forall>p. p \<in> reached sample_env ?es \<longrightarrow> Suc (nesting (grammar sample_env p)) \<le> 3"
    by (simp only: ex_outer_reached) (auto simp: sample_references)
  have o1: "own_names sample_env ?es"
    unfolding own_names_def by (simp only: ex_outer(2,3)) (simp add: sample_own)
  have o2: "own_names sample_env (grammar sample_env ''outer'')"
    unfolding own_names_def by (simp only: sample_references) (simp add: sample_own)
  have o3: "own_names sample_env (grammar sample_env ''nested'')"
    unfolding own_names_def by (simp only: sample_references) simp
  have o: "\<forall>p. p \<in> reached sample_env ?es \<longrightarrow> own_names sample_env (grammar sample_env p)"
    using o2 o3 by (simp only: ex_outer_reached) auto
  from t acy have "\<exists>n out. typing sample_env n ?es = Some out" by blast
  moreover from t r1 r2 r3
  have "\<exists>out. typing sample_env (Suc (nesting ?es) + 2 * 3) ?es = Some out" by blast
  moreover from t ex_outer(4) have m: "typing sample_env (6 + 1) ?es = Some ?a" by blast
  moreover from t o1 o ex_outer(4) have "\<exists>ts. ?a = Types ts" by blast
  moreover have b: "typing sample_env (Suc 1 + 2 * 3) ?es = Some ?a"
    using ex_outer(6) by simp
  moreover have n: "\<forall>q. q \<in> references [(0, DataType ''<'nope'>'' None)]
      \<longrightarrow> \<not> in_properties sample_env q"
    by (simp only: ex_unknown(1)) (simp add: sample_in_properties)
  moreover from u n
  have "\<exists>out. typing sample_env (Suc (nesting [(0, DataType ''<'nope'>'' None)]))
      [(0, DataType ''<'nope'>'' None)] = Some out"
    by blast
  moreover have c: "typing sample_env (Suc 0) [(0, DataType ''<'nope'>'' None)]
      = Some (Types [Type_String])"
    using ex_unknown(3) by simp
  moreover have l: "acyclic (reference_graph looping_env [(0, DataType ''<'color'>'' None)])"
    using empty by (simp only: ex_color_graph)
  moreover from v l
  have "\<exists>n out. typing looping_env n [(0, DataType ''<'color'>'' None)] = Some out" by blast
  ultimately show ?thesis
    using acy ex_outer_graph ex_outer(1) o1 o2 o3 sample_in_properties(4) ex_color(2)
    by blast
qed

text \<open>
  The depth is not bounded by the sum of one nesting depth and the length of the
  reference chain. The tree \<^verbatim>\<open>[ [ <'nested'> ] ]\<close> has two nested groups and quotes
  \<^verbatim>\<open>nested\<close>, whose grammar \<^verbatim>\<open>[ [ a ] ]\<close> has two nested groups and quotes nothing:
  a chain of one link. Five nested activations (three for the nesting and two for the
  chain, each counted with its outermost level) do not suffice; six do. And a tree
  that quotes nothing need not return an array: the bare name \<^verbatim>\<open>valueOf\<close> is found in
  the catalog by inheritance, \<^verbatim>\<open><valueOf>\<close> returns \<^verbatim>\<open>undefined\<close>, and in a group it
  throws.
\<close>

lemma ex_nested_reference:
  "nesting [(0, Group [(0, Group [(0, DataType ''<'nested'>'' None)] None)] None)] = 2"
  "references [(0, Group [(0, Group [(0, DataType ''<'nested'>'' None)] None)] None)]
     = {''nested''}"
  "typing sample_env 5 [(0, Group [(0, Group [(0, DataType ''<'nested'>'' None)] None)] None)]
     = None"
  "typing sample_env 6 [(0, Group [(0, Group [(0, DataType ''<'nested'>'' None)] None)] None)]
     = Some (Types [Type_StringLiteral ''a''])"
  by code_simp+

lemma ex_nested_graph:
  "reference_graph sample_env
     [(0, Group [(0, Group [(0, DataType ''<'nested'>'' None)] None)] None)] = {}"
proof (rule reference_graph_empty)
  fix p
  assume "p \<in> reached sample_env
      [(0, Group [(0, Group [(0, DataType ''<'nested'>'' None)] None)] None)]"
  then have "p = ''nested''"
    by (induction rule: reached.induct)
      (auto simp: ex_nested_reference(2) sample_references
        simp del: references.simps references_entity.simps)
  then show "references (grammar sample_env p) = {}" by (simp add: sample_references)
qed

lemma ex_inherited:
  "references [(0, DataType ''<valueOf>'' None)] = {}"
  "references [(0, Group [(0, DataType ''<valueOf>'' None)] None)] = {}"
  "typing sample_env 1 [(0, DataType ''<valueOf>'' None)] = Some Undefined"
  "typing sample_env 2 [(0, Group [(0, DataType ''<valueOf>'' None)] None)] = Some TypeError"
  by code_simp+

theorem recursion_depth_counterexample:
  "nesting [(0, Group [(0, Group [(0, DataType ''<'nested'>'' None)] None)] None)] = 2
   \<and> references [(0, Group [(0, Group [(0, DataType ''<'nested'>'' None)] None)] None)]
     = {''nested''}
   \<and> reference_graph sample_env
       [(0, Group [(0, Group [(0, DataType ''<'nested'>'' None)] None)] None)] = {}
   \<and> typing sample_env (Suc 2 + Suc 1)
       [(0, Group [(0, Group [(0, DataType ''<'nested'>'' None)] None)] None)]
     = None
   \<and> typing sample_env 6
       [(0, Group [(0, Group [(0, DataType ''<'nested'>'' None)] None)] None)]
     = Some (Types [Type_StringLiteral ''a''])
   \<and> references [(0, DataType ''<valueOf>'' None)] = {}
   \<and> typing sample_env 1 [(0, DataType ''<valueOf>'' None)] = Some Undefined
   \<and> references [(0, Group [(0, DataType ''<valueOf>'' None)] None)] = {}
   \<and> typing sample_env 2 [(0, Group [(0, DataType ''<valueOf>'' None)] None)]
     = Some TypeError"
proof -
  have "Suc 2 + Suc 1 = (5::nat)" by simp
  then show ?thesis using ex_nested_reference ex_nested_graph ex_inherited by simp
qed

text \<open>
  Without the hypothesis on the reference graph the call need not end: on the
  property that quotes itself no depth is enough.
\<close>

lemma looping_facts:
  "in_properties looping_env ''loop''"
  "parse looping_env (syntax_of looping_env ''loop'') = [(0, DataType ''<'loop'>'' None)]"
  "exec_quoted (slice_1_m1 ''<'loop'>'') = Some ''loop''"
  by code_simp+

lemma cycle_never_returns: "typing looping_env n [(0, DataType ''<'loop'>'' None)] = None"
proof (induction n)
  case 0
  show ?case by simp
next
  case (Suc n)
  have "add_typing (\<lambda>es'. typing looping_env n es') [(0, DataType ''<'loop'>'' None)]
      (multiplied None) (Types []) = None"
    using Suc.IH by (simp add: add_typing_def)
  then have "typing_body looping_env (\<lambda>es'. typing looping_env n es')
      [(0, DataType ''<'loop'>'' None)] (Types []) (0, DataType ''<'loop'>'' None) = None"
    using single_included [of 0 "DataType ''<'loop'>'' None"]
    by (simp only: typing_body.simps looping_facts if_True option.case)
  then show ?case by (simp only: typing.simps for_of.simps option.case)
qed

end
